theory Spec2Isabelle
  imports Main "HOL-Library.AList"
begin

section \<open>Data model of the sync engine (DataSyncService)\<close>

text \<open>
  The values that occur as entity identifiers. JavaScript compares them with \<open>===\<close>
  (in \<open>findIndex\<close>) and with SameValueZero (in \<open>Array.prototype.includes\<close>); on the
  primitives below both coincide with structural equality. \<open>truthy\<close> is the
  JavaScript truthiness that \<open>!data.id\<close> tests.
\<close>

datatype jsval = Undefined | Null | JBool bool | JNum int | JStr string

fun truthy :: "jsval \<Rightarrow> bool" where
  "truthy Undefined = False"
| "truthy Null = False"
| "truthy (JBool b) = b"
| "truthy (JNum n) = (n \<noteq> 0)"
| "truthy (JStr s) = (s \<noteq> [])"

text \<open>
  The entity payload \<open>data\<close>: its \<open>id\<close> property and its remaining properties. The
  payload is held by value: every call of \<open>queueChange\<close> is taken to pass an object of
  its own. (Where the code generates a local id it assigns it to the caller's object;
  an entry queued earlier with the very same object would show the new id too. No
  statement below speaks of the data of earlier entries after such a call.)
\<close>

record payload =
  id' :: jsval
  props :: "(string \<times> jsval) list"

text \<open>
  A Change Entry, as \<open>queueChange\<close> builds it (\<open>{action, data, timestamp, synced}\<close>);
  \<open>error\<close> is the optional \<open>{code, message}\<close> that \<open>handleSyncErrors\<close> attaches.
\<close>

record change =
  action :: string
  data :: payload
  timestamp :: int
  synced :: bool
  error :: "(string \<times> string) option"

text \<open>
  \<open>this.pendingChanges\<close>: a plain JavaScript object from entity type to an array of
  entries, kept as the association list of its own properties. \<open>AList.update\<close> assigns
  a property: in place when the key exists, appended otherwise. (JavaScript lists a new
  key that is the decimal form of an array index before the other keys; the statements
  below read the store by key, through \<open>map_of\<close>, and do not depend on where a new
  key is listed.)
\<close>

type_synonym store = "(string \<times> change list) list"

text \<open>
  Reading a property of a plain object, \<open>obj[k]\<close>. An own key gives its value. A name
  that \<open>Object.prototype\<close> defines, and that is not an own key, gives the inherited
  function or object: a truthy value that has none of the methods of an array. Every
  other name gives \<open>undefined\<close>.
\<close>

definition object_prototype_names :: "string list" where
  "object_prototype_names =
     [''constructor'', ''hasOwnProperty'', ''isPrototypeOf'', ''propertyIsEnumerable'',
      ''toLocaleString'', ''toString'', ''valueOf'', ''__proto__'', ''__defineGetter__'',
      ''__defineSetter__'', ''__lookupGetter__'', ''__lookupSetter__'']"

definition inherited :: "string \<Rightarrow> bool" where
  "inherited k = (k \<in> set object_prototype_names)"

datatype 'a lookup = Own 'a | Inherited | Missing

definition get_prop :: "(string \<times> 'a) list \<Rightarrow> string \<Rightarrow> 'a lookup" where
  "get_prop obj k =
     (case map_of obj k of
        Some v \<Rightarrow> Own v
      | None \<Rightarrow> if inherited k then Inherited else Missing)"

text \<open>
  The items of a push response, of the shape that section 6 of the specification gives:
  each of \<open>syncedIds\<close>, \<open>conflicts\<close> and \<open>errors\<close> is absent (\<open>None\<close>) or an object from
  entity type to an array, kept in the order in which \<open>Object.entries\<close> lists it.
\<close>

record conflict =
  cid :: jsval
  serverVersion :: payload

record sync_error =
  eid :: jsval
  code :: string
  message :: string

record push_response =
  syncedIds :: "(string \<times> jsval list) list option"
  conflicts :: "(string \<times> conflict list) list option"
  errors :: "(string \<times> sync_error list) list option"

text \<open>
  What can be thrown: an awaited network call rejects with a network-level failure or
  with a response status outside 2xx; \<open>localStorage.setItem\<close> can fail; calling a
  method that a value does not have is a \<open>TypeError\<close>.
\<close>

datatype exn = NetworkError | ServerError nat | StorageError | TypeError

section \<open>Operations on the Pending Changes Store\<close>

text \<open>
  A statement that may throw returns the exception, if any, with the state at that
  moment. \<open>for_of\<close> is a \<open>for ... of\<close> loop over a list: an exception thrown by the
  body ends the loop and leaves what the earlier rounds have done.
\<close>

fun for_of :: "('a \<Rightarrow> 's \<Rightarrow> exn option \<times> 's) \<Rightarrow> 'a list \<Rightarrow> 's \<Rightarrow> exn option \<times> 's" where
  "for_of body [] s = (None, s)"
| "for_of body (x # xs) s =
     (case body x s of
        (Some e, s') \<Rightarrow> (Some e, s')
      | (None, s') \<Rightarrow> for_of body xs s')"

text \<open>\<open>Array.prototype.findIndex\<close>; \<open>None\<close> stands for the result \<open>-1\<close>.\<close>

fun findIndex :: "('a \<Rightarrow> bool) \<Rightarrow> 'a list \<Rightarrow> nat option" where
  "findIndex p [] = None"
| "findIndex p (x # xs) =
     (if p x then Some 0 else (case findIndex p xs of None \<Rightarrow> None | Some i \<Rightarrow> Some (Suc i)))"

text \<open>
  \<open>getUnsynced\<close> (lines 282-294): the loop over \<open>Object.entries(this.pendingChanges)\<close>,
  which lists own properties only.
\<close>

definition unsynced_of :: "change list \<Rightarrow> change list" where
  "unsynced_of changes = filter (\<lambda>c. \<not> synced c) changes"

definition getUnsynced_step :: "string \<times> change list \<Rightarrow> store \<Rightarrow> store" where
  "getUnsynced_step e unsynced =
     (let unsyncedChanges = unsynced_of (snd e)
      in if length unsyncedChanges > 0 then AList.update (fst e) unsyncedChanges unsynced
         else unsynced)"

definition getUnsynced :: "store \<Rightarrow> store" where
  "getUnsynced pc = fold getUnsynced_step pc []"

text \<open>
  \<open>markChangesSynced\<close> (lines 316-334). \<open>now\<close> is the value of \<open>Date.now()\<close>.
  \<open>mark_synced\<close> is the callback of \<open>map\<close>, \<open>retained\<close> the callback of \<open>filter\<close>,
  \<open>markChangesSynced_type\<close> the body of the loop over \<open>Object.entries(syncedIds)\<close>.
  The test \<open>if (this.pendingChanges[entityType])\<close> passes for an inherited name, and
  the call of \<open>map\<close> on the inherited value then throws.
\<close>

definition mark_synced :: "jsval list \<Rightarrow> change \<Rightarrow> change" where
  "mark_synced ids c = (if id' (data c) \<in> set ids then c\<lparr>synced := True\<rparr> else c)"

definition retained :: "int \<Rightarrow> change \<Rightarrow> bool" where
  "retained now c = (let oneHourAgo = now - 60 * 60 * 1000
                     in \<not> synced c \<or> timestamp c > oneHourAgo)"

definition markChangesSynced_type ::
    "int \<Rightarrow> string \<times> jsval list \<Rightarrow> store \<Rightarrow> exn option \<times> store" where
  "markChangesSynced_type now e pc =
     (case get_prop pc (fst e) of
        Missing \<Rightarrow> (None, pc)
      | Inherited \<Rightarrow> (Some TypeError, pc)
      | Own changes \<Rightarrow>
          (None,
           AList.update (fst e) (filter (retained now) (map (mark_synced (snd e)) changes)) pc))"

definition markChangesSynced ::
    "(string \<times> jsval list) list \<Rightarrow> int \<Rightarrow> store \<Rightarrow> exn option \<times> store" where
  "markChangesSynced ids now pc = for_of (markChangesSynced_type now) ids pc"

text \<open>
  \<open>resolveConflicts\<close> (lines 340-366): \<open>resolveConflict\<close> is the body of the inner loop,
  the in-place assignment to \<open>data\<close> and \<open>synced\<close> of the entry found. For an inherited
  name the call of \<open>findIndex\<close> throws.
\<close>

definition resolveConflict :: "string \<Rightarrow> conflict \<Rightarrow> store \<Rightarrow> exn option \<times> store" where
  "resolveConflict entityType cf pc =
     (case get_prop pc entityType of
        Missing \<Rightarrow> (None, pc)
      | Inherited \<Rightarrow> (Some TypeError, pc)
      | Own changes \<Rightarrow>
          (case findIndex (\<lambda>c. id' (data c) = cid cf \<and> \<not> synced c) changes of
             None \<Rightarrow> (None, pc)
           | Some i \<Rightarrow>
               (None,
                AList.update entityType
                  (changes[i := (changes ! i)\<lparr>data := serverVersion cf, synced := True\<rparr>]) pc)))"

definition resolveConflicts ::
    "(string \<times> conflict list) list \<Rightarrow> store \<Rightarrow> exn option \<times> store" where
  "resolveConflicts cfs pc = for_of (\<lambda>e. for_of (resolveConflict (fst e)) (snd e)) cfs pc"

text \<open>
  \<open>handleSyncErrors\<close> (lines 372-392): \<open>handleSyncError\<close> is the body of the inner loop.
  The store is read only for an error with a fatal code.
\<close>

definition fatal :: "string \<Rightarrow> bool" where
  "fatal c = (c = ''INVALID_DATA'' \<or> c = ''PERMISSION_DENIED'')"

definition handleSyncError :: "string \<Rightarrow> sync_error \<Rightarrow> store \<Rightarrow> exn option \<times> store" where
  "handleSyncError entityType er pc =
     (if fatal (code er) then
        (case get_prop pc entityType of
           Missing \<Rightarrow> (None, pc)
         | Inherited \<Rightarrow> (Some TypeError, pc)
         | Own changes \<Rightarrow>
             (case findIndex (\<lambda>c. id' (data c) = eid er \<and> \<not> synced c) changes of
                None \<Rightarrow> (None, pc)
              | Some i \<Rightarrow>
                  (None,
                   AList.update entityType
                     (changes[i := (changes ! i)\<lparr>error := Some (code er, message er)\<rparr>]) pc)))
      else (None, pc))"

definition handleSyncErrors ::
    "(string \<times> sync_error list) list \<Rightarrow> store \<Rightarrow> exn option \<times> store" where
  "handleSyncErrors ers pc = for_of (\<lambda>e. for_of (handleSyncError (fst e)) (snd e)) ers pc"

text \<open>
  \<open>handleSyncResponse\<close> (lines 300-310): conflicts first, then errors; each only when
  the property is present and has at least one key.
\<close>

definition handleSyncResponse :: "push_response \<Rightarrow> store \<Rightarrow> exn option \<times> store" where
  "handleSyncResponse response pc =
     (case (case conflicts response of
              None \<Rightarrow> (None, pc)
            | Some cfs \<Rightarrow> if length cfs > 0 then resolveConflicts cfs pc else (None, pc)) of
        (Some e, pc1) \<Rightarrow> (Some e, pc1)
      | (None, pc1) \<Rightarrow>
          (case errors response of
             None \<Rightarrow> (None, pc1)
           | Some ers \<Rightarrow> if length ers > 0 then handleSyncErrors ers pc1 else (None, pc1)))"

section \<open>The service instance and its environment\<close>

text \<open>
  The network calls the service issues: \<open>axios.get\<close> with \<open>params.since\<close>, and
  \<open>axios.post\<close> with its body.
\<close>

datatype request = Get int | Post store

text \<open>A sync cycle that is suspended at an \<open>await\<close>: on the pull or on the push.\<close>

datatype stage = AwaitingPull | AwaitingPush

text \<open>What a call of an async function has come to: a resolved promise, or a pending one.\<close>

datatype progress = Resolved bool | Pending

type_synonym server_changes = "(string \<times> payload list) list"

text \<open>
  The fields of the \<open>DataSyncService\<close> instance, followed by the environment it acts on:
  the clock \<open>Date.now()\<close> reads, the two \<open>localStorage\<close> keys and whether a write to
  them succeeds, the network calls issued so far, the events dispatched on \<open>window\<close>,
  and the sync cycles in flight.
\<close>

record sys =
  authToken :: "string option"
  isOnline :: bool
  syncInterval :: "nat option"
  pendingChanges :: store
  lastSyncTimestamp :: "int option"
  clock :: int
  storage_writable :: bool
  stored_changes :: "store option"
  stored_last_sync :: "int option"
  requests :: "request list"
  dispatched :: "(string \<times> payload list) list"
  inflight :: "stage list"

text \<open>Decimal rendering of a number, for the template literal of the local id.\<close>

function string_of_nat :: "nat \<Rightarrow> string" where
  "string_of_nat n =
     (if n < 10 then [char_of (48 + n)]
      else string_of_nat (n div 10) @ [char_of (48 + n mod 10)])"
  by pat_completeness auto
termination
  by (relation "measure (\<lambda>n. n)") auto

definition string_of_int :: "int \<Rightarrow> string" where
  "string_of_int i =
     (if i < 0 then CHR ''-'' # string_of_nat (nat (- i)) else string_of_nat (nat i))"

text \<open>\<open>!this.authToken\<close> is true for an absent and for an empty token.\<close>

definition has_token :: "string option \<Rightarrow> bool" where
  "has_token t = (case t of None \<Rightarrow> False | Some x \<Rightarrow> x \<noteq> [])"

text \<open>\<open>startSyncInterval\<close> and \<open>stopSyncInterval\<close> (lines 57-79): the timer armed or not.\<close>

definition startSyncInterval :: "nat \<Rightarrow> sys \<Rightarrow> sys" where
  "startSyncInterval intervalMs s = s\<lparr>syncInterval := Some intervalMs\<rparr>"

definition stopSyncInterval :: "sys \<Rightarrow> sys" where
  "stopSyncInterval s = s\<lparr>syncInterval := None\<rparr>"

text \<open>
  \<open>savePendingChangesToStorage\<close> (lines 103-109): a failing write is caught and logged.
\<close>

definition savePendingChangesToStorage :: "sys \<Rightarrow> sys" where
  "savePendingChangesToStorage s =
     (if storage_writable s then s\<lparr>stored_changes := Some (pendingChanges s)\<rparr> else s)"

text \<open>
  \<open>updateLastSyncTimestamp\<close> (lines 114-118): the field is assigned before the write to
  storage, which is not guarded here; \<open>Some e\<close> is the exception thrown.
\<close>

definition updateLastSyncTimestamp :: "sys \<Rightarrow> exn option \<times> sys" where
  "updateLastSyncTimestamp s =
     (let now = clock s;
          s1 = s\<lparr>lastSyncTimestamp := Some now\<rparr>
      in if storage_writable s1 then (None, s1\<lparr>stored_last_sync := Some now\<rparr>)
         else (Some StorageError, s1))"

text \<open>
  \<open>emitChangeEvents\<close> and \<open>applyServerChanges\<close> (lines 220-239, 398-407): one event per
  entity type of the pulled changes; nothing else of the state is touched.
\<close>

definition emitChangeEvents :: "server_changes \<Rightarrow> sys \<Rightarrow> sys" where
  "emitChangeEvents changes s =
     fold (\<lambda>e s'. s'\<lparr>dispatched := dispatched s' @ [(''aigenda:'' @ fst e @ '':updated'', snd e)]\<rparr>)
       changes s"

definition applyServerChanges :: "server_changes \<Rightarrow> sys \<Rightarrow> sys" where
  "applyServerChanges serverChanges s = emitChangeEvents serverChanges s"

text \<open>
  \<open>pullChangesFromServer\<close> (lines 190-214), split at its \<open>await\<close>: the request it issues,
  and what it does once the request has settled (\<open>Inl\<close>: rejected, the \<open>catch\<close> logs
  and rethrows; \<open>Inr None\<close>: a response without data).
\<close>

definition pullChangesFromServer_request :: "sys \<Rightarrow> request" where
  "pullChangesFromServer_request s =
     Get (case lastSyncTimestamp s of None \<Rightarrow> 0 | Some t \<Rightarrow> t)"

definition pullChangesFromServer_resume ::
    "exn + server_changes option \<Rightarrow> sys \<Rightarrow> exn option \<times> sys" where
  "pullChangesFromServer_resume r s =
     (case r of
        Inl e \<Rightarrow> (Some e, s)
      | Inr None \<Rightarrow> (None, s)
      | Inr (Some serverChanges) \<Rightarrow>
          (None, if length serverChanges > 0 then applyServerChanges serverChanges s else s))"

text \<open>
  \<open>pushChangesToServer\<close> (lines 244-276), split at its \<open>await\<close>: \<open>None\<close> when there is
  nothing to push and the function returns at once, else the request issued; then
  what it does once the request has settled. An exception thrown while the response is
  processed is logged and rethrown by the \<open>catch\<close>: the store keeps what was done up to
  then, and nothing is saved.
\<close>

definition pushChangesToServer_request :: "sys \<Rightarrow> request option" where
  "pushChangesToServer_request s =
     (let changesToSync = getUnsynced (pendingChanges s)
      in if length changesToSync = 0 then None else Some (Post changesToSync))"

definition pushChangesToServer_resume ::
    "exn + push_response \<Rightarrow> sys \<Rightarrow> exn option \<times> sys" where
  "pushChangesToServer_resume r s =
     (case r of
        Inl e \<Rightarrow> (Some e, s)
      | Inr response \<Rightarrow>
          (case handleSyncResponse response (pendingChanges s) of
             (Some e, pc1) \<Rightarrow> (Some e, s\<lparr>pendingChanges := pc1\<rparr>)
           | (None, pc1) \<Rightarrow>
               (case markChangesSynced
                       (case syncedIds response of None \<Rightarrow> [] | Some ids \<Rightarrow> ids)
                       (clock s) pc1 of
                  (Some e, pc2) \<Rightarrow> (Some e, s\<lparr>pendingChanges := pc2\<rparr>)
                | (None, pc2) \<Rightarrow>
                    (None, savePendingChangesToStorage (s\<lparr>pendingChanges := pc2\<rparr>)))))"

text \<open>
  \<open>syncData\<close> (lines 159-185), split at the two awaits. A cycle that suspends is entered
  in \<open>inflight\<close>; \<open>i\<close> is its position there. \<open>syncData_begin\<close> runs up to the pull
  request, \<open>syncData_pulled\<close> from the settled pull up to the push request or the end,
  \<open>syncData_pushed\<close> from the settled push to the end. Every exception ends in the
  \<open>catch\<close> of \<open>syncData\<close>, which returns \<open>false\<close>.
\<close>

definition retire :: "nat \<Rightarrow> sys \<Rightarrow> sys" where
  "retire i s = s\<lparr>inflight := take i (inflight s) @ drop (Suc i) (inflight s)\<rparr>"

definition syncData_begin :: "sys \<Rightarrow> progress \<times> sys" where
  "syncData_begin s =
     (if \<not> has_token (authToken s) then (Resolved False, s)
      else if \<not> isOnline s then (Resolved False, s)
      else (Pending, s\<lparr>requests := requests s @ [pullChangesFromServer_request s],
                        inflight := inflight s @ [AwaitingPull]\<rparr>))"

definition syncData_finish :: "nat \<Rightarrow> sys \<Rightarrow> bool \<times> sys" where
  "syncData_finish i s =
     (case updateLastSyncTimestamp s of
        (None, s1) \<Rightarrow> (True, retire i s1)
      | (Some e, s1) \<Rightarrow> (False, retire i s1))"

definition syncData_pushed :: "nat \<Rightarrow> exn + push_response \<Rightarrow> sys \<Rightarrow> bool \<times> sys" where
  "syncData_pushed i r s =
     (case pushChangesToServer_resume r s of
        (Some e, s1) \<Rightarrow> (False, retire i s1)
      | (None, s1) \<Rightarrow> syncData_finish i s1)"

definition syncData_pulled ::
    "nat \<Rightarrow> exn + server_changes option \<Rightarrow> sys \<Rightarrow> progress \<times> sys" where
  "syncData_pulled i r s =
     (case pullChangesFromServer_resume r s of
        (Some e, s1) \<Rightarrow> (Resolved False, retire i s1)
      | (None, s1) \<Rightarrow>
          (case pushChangesToServer_request s1 of
             None \<Rightarrow> (case syncData_finish i s1 of (b, s2) \<Rightarrow> (Resolved b, s2))
           | Some req \<Rightarrow>
               (Pending, s1\<lparr>requests := requests s1 @ [req],
                            inflight := (inflight s1)[i := AwaitingPush]\<rparr>)))"

text \<open>
  One whole cycle with nothing else happening in between. The network decides how
  long each call takes and how it settles; the clock advances while the cycle waits.
\<close>

record network =
  pull_latency :: nat
  pull_outcome :: "exn + server_changes option"
  push_latency :: nat
  push_outcome :: "exn + push_response"

definition elapse :: "nat \<Rightarrow> sys \<Rightarrow> sys" where
  "elapse d s = s\<lparr>clock := clock s + int d\<rparr>"

definition syncData :: "network \<Rightarrow> sys \<Rightarrow> bool \<times> sys" where
  "syncData net s =
     (case syncData_begin s of
        (Resolved b, s0) \<Rightarrow> (b, s0)
      | (Pending, s0) \<Rightarrow>
          (case syncData_pulled (length (inflight s)) (pull_outcome net)
                  (elapse (pull_latency net) s0) of
             (Resolved b, s1) \<Rightarrow> (b, s1)
           | (Pending, s1) \<Rightarrow>
               syncData_pushed (length (inflight s)) (push_outcome net)
                 (elapse (push_latency net) s1)))"

text \<open>
  \<open>queueChange\<close> (lines 126-153). \<open>rnd\<close> is the text of
  \<open>Math.random().toString(36)\<close> after its first two characters. The test
  \<open>!this.pendingChanges[entityType]\<close> fails for an inherited name, no array is
  assigned, and the call of \<open>push\<close> throws: the exception reaches the caller (\<open>Inl\<close>),
  nothing is queued or saved and no sync is started. The call of \<open>syncData\<close> is not
  awaited: only its part before the first \<open>await\<close> runs before \<open>queueChange\<close> returns.
\<close>

definition queueChange ::
    "string \<Rightarrow> string \<Rightarrow> payload \<Rightarrow> string \<Rightarrow> sys \<Rightarrow> (exn + jsval) \<times> sys" where
  "queueChange entityType act d rnd s =
     (let d1 = (if act = ''create'' \<and> \<not> truthy (id' d)
                then d\<lparr>id' := JStr (''local_'' @ string_of_int (clock s) @ ''_'' @ take 9 rnd)\<rparr>
                else d);
          pc1 = (case get_prop (pendingChanges s) entityType of
                   Missing \<Rightarrow> AList.update entityType [] (pendingChanges s)
                 | Inherited \<Rightarrow> pendingChanges s
                 | Own changes \<Rightarrow> pendingChanges s)
      in case get_prop pc1 entityType of
           Missing \<Rightarrow> (Inl TypeError, s\<lparr>pendingChanges := pc1\<rparr>)
         | Inherited \<Rightarrow> (Inl TypeError, s\<lparr>pendingChanges := pc1\<rparr>)
         | Own changes \<Rightarrow>
             (let pc2 = AList.update entityType
                          (changes @
                             [\<lparr>action = act, data = d1, timestamp = clock s, synced = False,
                               error = None\<rparr>])
                          pc1;
                  s1 = savePendingChangesToStorage (s\<lparr>pendingChanges := pc2\<rparr>);
                  s2 = (if isOnline s1 then snd (syncData_begin s1) else s1)
              in (Inr (id' d1), s2)))"

text \<open>\<open>handleOnlineStatusChange\<close> (lines 42-51); \<open>b\<close> is \<open>navigator.onLine\<close>.\<close>

definition handleOnlineStatusChange :: "bool \<Rightarrow> sys \<Rightarrow> sys" where
  "handleOnlineStatusChange b s =
     (let s1 = s\<lparr>isOnline := b\<rparr>
      in if isOnline s1 then snd (syncData_begin s1) else s1)"

text \<open>
  The events the single-threaded runtime delivers to the service, one at a time: a tick
  of the interval timer (the callback of \<open>setInterval\<close>, lines 64-68), an online or
  offline notification, a call of \<open>queueChange\<close>, the settling of the pull or push
  request of the cycle at position \<open>i\<close> of \<open>inflight\<close>, and the passing of time.
\<close>

datatype event =
    Tick
  | Connectivity bool
  | Enqueue string string payload string
  | PullSettled nat "exn + server_changes option"
  | PushSettled nat "exn + push_response"
  | Elapse nat

fun step :: "event \<Rightarrow> sys \<Rightarrow> sys" where
  "step Tick s =
     (case syncInterval s of
        None \<Rightarrow> s
      | Some _ \<Rightarrow> if isOnline s then snd (syncData_begin s) else s)"
| "step (Connectivity b) s = handleOnlineStatusChange b s"
| "step (Enqueue entityType act d rnd) s = snd (queueChange entityType act d rnd s)"
| "step (PullSettled i r) s =
     (if i < length (inflight s) \<and> inflight s ! i = AwaitingPull
      then snd (syncData_pulled i r s) else s)"
| "step (PushSettled i r) s =
     (if i < length (inflight s) \<and> inflight s ! i = AwaitingPush
      then snd (syncData_pushed i r s) else s)"
| "step (Elapse d) s = elapse d s"

definition run :: "event list \<Rightarrow> sys \<Rightarrow> sys" where
  "run evs s = fold step evs s"

section \<open>Notions used in the statements and proofs\<close>

text \<open>A request of the push phase (\<open>axios.post\<close>), as opposed to one of the pull phase.\<close>

fun is_push :: "request \<Rightarrow> bool" where
  "is_push (Post body) = True"
| "is_push (Get since) = False"

text \<open>
  The invariant of section 3 of the specification: no entry carries an error and is
  marked synced as well.
\<close>

definition one_outcome :: "store \<Rightarrow> bool" where
  "one_outcome pc = list_all (\<lambda>e. list_all (\<lambda>c. error c \<noteq> None \<longrightarrow> \<not> synced c) (snd e)) pc"

text \<open>
  Entity type and id of the entries that carry an error, of the conflicts a response
  reports, of the ids it reports as synced, and of the errors it reports with a fatal
  code.
\<close>

definition errored_targets :: "store \<Rightarrow> (string \<times> jsval) list" where
  "errored_targets pc =
     concat (map (\<lambda>e. map (\<lambda>c. (fst e, id' (data c))) (filter (\<lambda>c. error c \<noteq> None) (snd e))) pc)"

definition conflict_targets :: "push_response \<Rightarrow> (string \<times> jsval) list" where
  "conflict_targets response =
     concat (map (\<lambda>e. map (\<lambda>cf. (fst e, cid cf)) (snd e))
       (case conflicts response of None \<Rightarrow> [] | Some cfs \<Rightarrow> cfs))"

definition synced_targets :: "push_response \<Rightarrow> (string \<times> jsval) list" where
  "synced_targets response =
     concat (map (\<lambda>e. map (Pair (fst e)) (snd e))
       (case syncedIds response of None \<Rightarrow> [] | Some sids \<Rightarrow> sids))"

definition fatal_targets :: "push_response \<Rightarrow> (string \<times> jsval) list" where
  "fatal_targets response =
     concat (map (\<lambda>e. map (\<lambda>er. (fst e, eid er)) (filter (\<lambda>er. fatal (code er)) (snd e)))
       (case errors response of None \<Rightarrow> [] | Some ers \<Rightarrow> ers))"


text \<open>
  The conflicts of a response in the order in which the two nested loops of
  \<open>resolveConflicts\<close> visit them, and the same for the errors and \<open>handleSyncErrors\<close>.
\<close>

definition conflict_seq :: "(string \<times> conflict list) list \<Rightarrow> (string \<times> conflict) list" where
  "conflict_seq cfs = concat (map (\<lambda>e. map (Pair (fst e)) (snd e)) cfs)"

definition error_seq :: "(string \<times> sync_error list) list \<Rightarrow> (string \<times> sync_error) list" where
  "error_seq ers = concat (map (\<lambda>e. map (Pair (fst e)) (snd e)) ers)"

text \<open>
  \<open>inherited_only pc k\<close>: the store has \<open>k\<close> from \<open>Object.prototype\<close> only, so that an
  array method called on \<open>pc[k]\<close> throws. \<open>called_types response\<close>: the entity types
  at which the processing of a push response calls such a method: those of the
  conflicts, those of the errors with a fatal code, and those that \<open>syncedIds\<close> names.
\<close>

definition inherited_only :: "store \<Rightarrow> string \<Rightarrow> bool" where
  "inherited_only pc k = (inherited k \<and> map_of pc k = None)"


text \<open>
  What one round of each loop does to the store when it does not throw:
  \<open>mark_step\<close> for \<open>markChangesSynced\<close>, \<open>resolve_step\<close> for \<open>resolveConflicts\<close>,
  \<open>attach_step\<close> for \<open>handleSyncErrors\<close>. The proofs reason about these and about the
  rounds a loop completes before it throws.
\<close>

definition mark_step :: "int \<Rightarrow> string \<times> jsval list \<Rightarrow> store \<Rightarrow> store" where
  "mark_step now e pc =
     (case map_of pc (fst e) of
        None \<Rightarrow> pc
      | Some changes \<Rightarrow>
          AList.update (fst e) (filter (retained now) (map (mark_synced (snd e)) changes)) pc)"

definition resolve_step :: "string \<Rightarrow> conflict \<Rightarrow> store \<Rightarrow> store" where
  "resolve_step entityType cf pc =
     (case map_of pc entityType of
        None \<Rightarrow> pc
      | Some changes \<Rightarrow>
          (case findIndex (\<lambda>c. id' (data c) = cid cf \<and> \<not> synced c) changes of
             None \<Rightarrow> pc
           | Some i \<Rightarrow>
               AList.update entityType
                 (changes[i := (changes ! i)\<lparr>data := serverVersion cf, synced := True\<rparr>]) pc))"

definition attach_step :: "string \<Rightarrow> sync_error \<Rightarrow> store \<Rightarrow> store" where
  "attach_step entityType er pc =
     (if fatal (code er) then
        (case map_of pc entityType of
           None \<Rightarrow> pc
         | Some changes \<Rightarrow>
             (case findIndex (\<lambda>c. id' (data c) = eid er \<and> \<not> synced c) changes of
                None \<Rightarrow> pc
              | Some i \<Rightarrow>
                  AList.update entityType
                    (changes[i := (changes ! i)\<lparr>error := Some (code er, message er)\<rparr>]) pc))
      else pc)"

text \<open>
  Proof invariants. \<open>settled ids now cs\<close>: every entry of \<open>cs\<close> passes the retention
  filter and every entry named in \<open>ids\<close> is synced, so marking and sweeping \<open>cs\<close> again
  changes nothing. \<open>clear_of F pc\<close>: every entry with an error is unsynced and is not
  named in \<open>F\<close>. \<open>holds_at k j c pc\<close>: entry \<open>j\<close> of type \<open>k\<close> is \<open>c\<close>.
  \<open>first_open k i j c pc\<close>: the first unsynced entry of type \<open>k\<close> with id \<open>i\<close> is
  entry \<open>j\<close>, and it is \<open>c\<close>.
\<close>

definition settled :: "jsval list \<Rightarrow> int \<Rightarrow> change list \<Rightarrow> bool" where
  "settled ids now cs = (\<forall>c\<in>set cs. retained now c \<and> (id' (data c) \<in> set ids \<longrightarrow> synced c))"

definition settled_at :: "int \<Rightarrow> string \<times> jsval list \<Rightarrow> store \<Rightarrow> bool" where
  "settled_at now e pc =
     (case map_of pc (fst e) of None \<Rightarrow> True | Some cs \<Rightarrow> settled (snd e) now cs)"

definition clear_of :: "(string \<times> jsval) set \<Rightarrow> store \<Rightarrow> bool" where
  "clear_of F pc =
     (\<forall>e\<in>set pc. \<forall>c\<in>set (snd e). error c \<noteq> None \<longrightarrow> \<not> synced c \<and> (fst e, id' (data c)) \<notin> F)"



section \<open>Example states and responses\<close>

text \<open>
  An unsynced entry for the task \<open>A\<close>; an entry with a terminal error; an entry that was
  synced long ago; an old entry that is still unsynced; a second unsynced entry for
  \<open>A\<close>; the server's version of \<open>A\<close>.
\<close>

definition ex_entry :: change where
  "ex_entry = \<lparr>action = ''update'',
               data = \<lparr>id' = JStr ''A'', props = [(''title'', JStr ''Call Acme'')]\<rparr>,
               timestamp = 4000, synced = False, error = None\<rparr>"

definition ex_errored :: change where
  "ex_errored = \<lparr>action = ''update'',
                 data = \<lparr>id' = JStr ''E'', props = [(''title'', JStr [])]\<rparr>,
                 timestamp = 3000, synced = False,
                 error = Some (''INVALID_DATA'', ''empty title'')\<rparr>"

definition ex_old_synced :: change where
  "ex_old_synced = \<lparr>action = ''create'',
                    data = \<lparr>id' = JStr ''B'', props = [(''title'', JStr ''Send invoice'')]\<rparr>,
                    timestamp = 0, synced = True, error = None\<rparr>"

definition ex_old_unsynced :: change where
  "ex_old_unsynced = \<lparr>action = ''update'',
                      data = \<lparr>id' = JStr ''A'', props = [(''title'', JStr ''Call Acme'')]\<rparr>,
                      timestamp = 0, synced = False, error = None\<rparr>"

definition ex_entry_again :: change where
  "ex_entry_again = \<lparr>action = ''update'',
                     data = \<lparr>id' = JStr ''A'', props = [(''title'', JStr ''Call Acme today'')]\<rparr>,
                     timestamp = 4500, synced = False, error = None\<rparr>"

definition ex_server_version :: payload where
  "ex_server_version = \<lparr>id' = JStr ''A'', props = [(''title'', JStr ''Call Acme Corp'')]\<rparr>"

text \<open>
  A service that is online with a token and an armed timer, last synced at time 1000,
  at time 5000 (the third scenario of section 8 of the specification); the same with
  something to push; the same with two entries for \<open>A\<close>; and the same three hours
  later with an old entry in the store, synced or not.
\<close>

definition ex_sys :: sys where
  "ex_sys = \<lparr>authToken = Some ''token'', isOnline = True, syncInterval = Some 60000,
             pendingChanges = [], lastSyncTimestamp = Some 1000, clock = 5000,
             storage_writable = True, stored_changes = None, stored_last_sync = Some 1000,
             requests = [], dispatched = [], inflight = []\<rparr>"

definition ex_sys_pending :: sys where
  "ex_sys_pending = ex_sys\<lparr>pendingChanges := [(''tasks'', [ex_entry, ex_errored])]\<rparr>"

definition ex_sys_twice :: sys where
  "ex_sys_twice = ex_sys\<lparr>pendingChanges := [(''tasks'', [ex_entry, ex_entry_again])]\<rparr>"

definition ex_sys_late :: sys where
  "ex_sys_late = ex_sys\<lparr>clock := 10800000, pendingChanges := [(''tasks'', [ex_old_synced])]\<rparr>"

definition ex_sys_stale :: sys where
  "ex_sys_stale = ex_sys\<lparr>clock := 10800000, pendingChanges := [(''tasks'', [ex_old_unsynced])]\<rparr>"

text \<open>
  Responses to a push: \<open>A\<close> accepted; \<open>A\<close> rejected with a fatal code and accepted in the
  same response; \<open>A\<close> accepted after an entity type that the store only inherits;
  \<open>A\<close> in conflict and accepted in the same response.
\<close>

definition ex_resp_synced :: push_response where
  "ex_resp_synced =
     \<lparr>syncedIds = Some [(''tasks'', [JStr ''A''])], conflicts = None, errors = None\<rparr>"

definition ex_resp_error_and_synced :: push_response where
  "ex_resp_error_and_synced =
     \<lparr>syncedIds = Some [(''tasks'', [JStr ''A''])], conflicts = None,
      errors = Some [(''tasks'', [\<lparr>eid = JStr ''A'', code = ''INVALID_DATA'', message = ''bad''\<rparr>])]\<rparr>"

definition ex_resp_inherited :: push_response where
  "ex_resp_inherited =
     \<lparr>syncedIds = Some [(''constructor'', []), (''tasks'', [JStr ''A''])], conflicts = None,
      errors = None\<rparr>"

definition ex_resp_conflict_and_synced :: push_response where
  "ex_resp_conflict_and_synced =
     \<lparr>syncedIds = Some [(''tasks'', [JStr ''A''])],
      conflicts = Some [(''tasks'', [\<lparr>cid = JStr ''A'', serverVersion = ex_server_version\<rparr>])],
      errors = None\<rparr>"

text \<open>
  Networks: a pull that takes 250 ms and brings nothing, followed (when there is
  something to push) by a push that takes 400 ms and is accepted; and a pull that fails
  after 250 ms.
\<close>

definition ex_net :: network where
  "ex_net = \<lparr>pull_latency = 250, pull_outcome = Inr (Some []), push_latency = 400,
             push_outcome = Inr ex_resp_synced\<rparr>"

definition ex_net_down :: network where
  "ex_net_down = \<lparr>pull_latency = 250, pull_outcome = Inl NetworkError, push_latency = 400,
                  push_outcome = Inr ex_resp_synced\<rparr>"

section \<open>Lemmas\<close>

subsection \<open>Searching a list\<close>

text \<open>What \<open>findIndex\<close> returns: the first position that satisfies the test.\<close>

lemma findIndex_SomeD:
  "findIndex p xs = Some i \<Longrightarrow> i < length xs \<and> p (xs ! i) \<and> (\<forall>j<i. \<not> p (xs ! j))"
proof (induction xs arbitrary: i)
  case Nil
  then show ?case by simp
next
  case (Cons x xs)
  show ?case
  proof (cases "p x")
    case True
    with Cons.prems show ?thesis by simp
  next
    case False
    with Cons.prems obtain i' where i': "findIndex p xs = Some i'" "i = Suc i'"
      by (auto split: option.splits)
    from Cons.IH [OF i'(1)] False i'(2) show ?thesis
      by (auto simp: less_Suc_eq_0_disj)
  qed
qed


subsection \<open>Assigning properties of an object\<close>

text \<open>Facts about association lists that the operations rely on.\<close>

lemma set_AList_update: "set (AList.update k v pc) \<subseteq> insert (k, v) (set pc)"
  by (induction pc) auto

lemma update_absent: "map_of pc k = None \<Longrightarrow> AList.update k v pc = pc @ [(k, v)]"
  by (induction pc) (auto split: if_splits)

lemma fold_fixed: "(\<And>x. x \<in> set L \<Longrightarrow> f x M = M) \<Longrightarrow> fold f L M = M"
  by (induction L) auto

subsection \<open>Loops that may throw\<close>

text \<open>
  A loop whose body throws exactly where a test on the state says so, the test being
  unaffected by the rounds that do not throw, completes the rounds before the first
  such element.
\<close>

lemma for_of_append:
  "for_of body (xs @ ys) s =
     (case for_of body xs s of
        (Some e, s') \<Rightarrow> (Some e, s')
      | (None, s') \<Rightarrow> for_of body ys s')"
  by (induction xs arbitrary: s) (auto split: prod.splits option.splits)

lemma for_of_Pair:
  "for_of (\<lambda>x. f (fst x) (snd x)) (map (Pair k) cl) s = for_of (f k) cl s"
  by (induction cl arbitrary: s) (auto split: prod.splits option.splits)

lemma for_of_flatten:
  "for_of (\<lambda>e. for_of (f (fst e)) (snd e)) L s =
   for_of (\<lambda>x. f (fst x) (snd x)) (concat (map (\<lambda>e. map (Pair (fst e)) (snd e)) L)) s"
proof (induction L arbitrary: s)
  case Nil
  then show ?case by simp
next
  case (Cons e L)
  show ?case
    by (simp add: for_of_append for_of_Pair Cons.IH split: prod.splits option.splits)
qed

lemma for_of_guarded:
  assumes body: "\<And>x s. body x s = (if bad s x then (Some E, s) else (None, g x s))"
    and inv: "\<And>x y s. bad (g y s) x = bad s x"
  shows "for_of body L s =
           (if \<exists>x\<in>set L. bad s x then Some E else None,
            fold g (takeWhile (\<lambda>x. \<not> bad s x) L) s)"
proof (induction L arbitrary: s)
  case Nil
  then show ?case by simp
next
  case (Cons x L)
  show ?case
  proof (cases "bad s x")
    case True
    then show ?thesis by (simp add: body)
  next
    case False
    then have "body x s = (None, g x s)" by (simp add: body)
    then have "for_of body (x # L) s = for_of body L (g x s)" by simp
    also have "\<dots> = (if \<exists>y\<in>set L. bad (g x s) y then Some E else None,
                       fold g (takeWhile (\<lambda>y. \<not> bad (g x s) y) L) (g x s))"
      by (rule Cons.IH)
    also have "\<dots> = (if \<exists>y\<in>set (x # L). bad s y then Some E else None,
                       fold g (takeWhile (\<lambda>y. \<not> bad s y) (x # L)) s)"
      using False by (simp add: inv)
    finally show ?thesis .
  qed
qed

lemma get_prop_simps:
  "map_of pc k = Some v \<Longrightarrow> get_prop pc k = Own v"
  "inherited_only pc k \<Longrightarrow> get_prop pc k = Inherited"
  "map_of pc k = None \<Longrightarrow> \<not> inherited k \<Longrightarrow> get_prop pc k = Missing"
  by (simp_all add: get_prop_def inherited_only_def)

lemma inherited_only_keys:
  "(\<And>k. (map_of pc' k = None) = (map_of pc k = None)) \<Longrightarrow>
   inherited_only pc' k = inherited_only pc k"
  by (simp add: inherited_only_def)

subsection \<open>getUnsynced\<close>

text \<open>The loop of \<open>getUnsynced\<close>, with its accumulator generalised.\<close>

lemma map_of_getUnsynced_step:
  "map_of (getUnsynced_step (k', cs') acc) k =
     (if k = k' \<and> unsynced_of cs' \<noteq> [] then Some (unsynced_of cs') else map_of acc k)"
  by (simp add: getUnsynced_step_def Let_def update_conv')

lemma getUnsynced_fold_map_of:
  "distinct (map fst pc) \<Longrightarrow>
   map_of (fold getUnsynced_step pc acc) k =
     (case map_of pc k of
        None \<Rightarrow> map_of acc k
      | Some cs \<Rightarrow> if unsynced_of cs = [] then map_of acc k else Some (unsynced_of cs))"
proof (induction pc arbitrary: acc)
  case Nil
  then show ?case by simp
next
  case (Cons e pc)
  obtain k' cs' where e: "e = (k', cs')" by (cases e)
  from Cons.prems have d: "distinct (map fst pc)" and nk: "k' \<notin> fst ` set pc"
    by (auto simp: e)
  have none: "map_of pc k' = None" using nk by (simp add: map_of_eq_None_iff)
  show ?case
  proof (cases "k = k'")
    case True
    then show ?thesis
      using Cons.IH [OF d, of "getUnsynced_step e acc"] none
      by (simp add: e map_of_getUnsynced_step)
  next
    case False
    then show ?thesis
      using Cons.IH [OF d, of "getUnsynced_step e acc"]
      by (simp add: e map_of_getUnsynced_step split: option.splits)
  qed
qed

lemma getUnsynced_fold_Nil:
  "(fold getUnsynced_step pc acc = []) = (acc = [] \<and> (\<forall>e\<in>set pc. unsynced_of (snd e) = []))"
  by (induction pc arbitrary: acc) (auto simp: getUnsynced_step_def Let_def)

lemma unsynced_of_Nil: "(unsynced_of cs = []) = (\<forall>c\<in>set cs. synced c)"
  by (auto simp: unsynced_of_def filter_empty_conv)

subsection \<open>markChangesSynced\<close>

text \<open>One round of marking and sweeping, and what a second round finds.\<close>

lemma mark_synced_simps:
  "synced (mark_synced ids c) = (synced c \<or> id' (data c) \<in> set ids)"
  "data (mark_synced ids c) = data c"
  "timestamp (mark_synced ids c) = timestamp c"
  "error (mark_synced ids c) = error c"
  "action (mark_synced ids c) = action c"
  by (simp_all add: mark_synced_def)

lemma mark_synced_id: "synced c \<or> id' (data c) \<notin> set ids \<Longrightarrow> mark_synced ids c = c"
  by (auto simp: mark_synced_def)

lemma map_of_mark_step:
  "map_of (mark_step now (k, ids) pc) k' =
     (if k' = k
      then map_option (\<lambda>cs. filter (retained now) (map (mark_synced ids) cs)) (map_of pc k)
      else map_of pc k')"
  by (auto simp: mark_step_def update_conv' split: option.splits)

lemma settled_fixed:
  "settled ids now cs \<Longrightarrow> filter (retained now) (map (mark_synced ids) cs) = cs"
proof -
  assume s: "settled ids now cs"
  have "map (mark_synced ids) cs = cs"
    using s by (intro map_idI mark_synced_id) (auto simp: settled_def)
  moreover have "filter (retained now) cs = cs"
    using s by (simp add: settled_def)
  ultimately show ?thesis by simp
qed

lemma settled_established:
  "settled ids now (filter (retained now) (map (mark_synced ids) cs))"
  by (auto simp: settled_def mark_synced_simps)

lemma settled_preserved:
  "settled ids now cs \<Longrightarrow> settled ids now (filter (retained now) (map (mark_synced ids') cs))"
  by (auto simp: settled_def mark_synced_simps)

lemma settled_at_step_same:
  "settled_at now e (mark_step now e pc)"
  by (cases e) (auto simp: settled_at_def map_of_mark_step settled_established
      split: option.splits)

lemma settled_at_step:
  "settled_at now e pc \<Longrightarrow> settled_at now e (mark_step now e' pc)"
  by (cases e; cases e')
    (auto simp: settled_at_def map_of_mark_step settled_preserved
      split: option.splits)

lemma settled_at_fold:
  "settled_at now e pc \<Longrightarrow> settled_at now e (fold (mark_step now) L pc)"
  by (induction L arbitrary: pc) (auto simp: settled_at_step)

lemma settled_at_fold_mem:
  "e \<in> set L \<Longrightarrow> settled_at now e (fold (mark_step now) L pc)"
  by (induction L arbitrary: pc) (auto simp: settled_at_fold settled_at_step_same)

lemma settled_at_fixed:
  "settled_at now e pc \<Longrightarrow> mark_step now e pc = pc"
  by (auto simp: settled_at_def mark_step_def settled_fixed update_triv
      split: option.splits)






lemma markChangesSynced_keeps_synced:
  "map_of pc k = Some cs \<Longrightarrow> c \<in> set cs \<Longrightarrow> synced c \<Longrightarrow> retained now c \<Longrightarrow>
   \<exists>cs'. map_of (fold (mark_step now) L pc) k = Some cs' \<and> c \<in> set cs'"
proof (induction L arbitrary: pc cs)
  case Nil
  then show ?case by simp
next
  case (Cons e L)
  obtain k' ids where e: "e = (k', ids)" by (cases e)
  let ?pc = "mark_step now e pc"
  have "\<exists>cs1. map_of ?pc k = Some cs1 \<and> c \<in> set cs1"
  proof (cases "k' = k")
    case True
    from Cons.prems have "mark_synced ids c = c" by (simp add: mark_synced_id)
    with Cons.prems True show ?thesis
      by (force simp: e map_of_mark_step)
  next
    case False
    with Cons.prems show ?thesis
      by (simp add: e map_of_mark_step)
  qed
  then obtain cs1 where "map_of ?pc k = Some cs1" "c \<in> set cs1" by blast
  from Cons.IH [OF this Cons.prems(3,4)] show ?case by simp
qed

lemma markChangesSynced_type_eq:
  "markChangesSynced_type now e pc =
     (if inherited_only pc (fst e) then (Some TypeError, pc) else (None, mark_step now e pc))"
  by (auto simp: markChangesSynced_type_def mark_step_def get_prop_def inherited_only_def
      split: option.splits)

lemma keys_mark_step: "(map_of (mark_step now e pc) k = None) = (map_of pc k = None)"
  by (cases e) (simp add: map_of_mark_step)

lemma keys_mark_fold: "(map_of (fold (mark_step now) L pc) k = None) = (map_of pc k = None)"
  by (induction L arbitrary: pc) (simp_all add: keys_mark_step)

lemma markChangesSynced_eq:
  "markChangesSynced sids now pc =
     (if \<exists>e\<in>set sids. inherited_only pc (fst e) then Some TypeError else None,
      fold (mark_step now) (takeWhile (\<lambda>e. \<not> inherited_only pc (fst e)) sids) pc)"
  unfolding markChangesSynced_def
  by (rule for_of_guarded [where bad = "\<lambda>pc e. inherited_only pc (fst e)"])
    (simp_all add: markChangesSynced_type_eq inherited_only_def keys_mark_step)


lemma markChangesSynced_prefix:
  "\<exists>P. set P \<subseteq> set sids \<and> snd (markChangesSynced sids now pc) = fold (mark_step now) P pc"
  using set_takeWhileD [of _ "\<lambda>e. \<not> inherited_only pc (fst e)" sids]
  by (intro exI [of _ "takeWhile (\<lambda>e. \<not> inherited_only pc (fst e)) sids"])
    (auto simp: markChangesSynced_eq)

subsection \<open>The processing of a push response\<close>

text \<open>
  Each loop in terms of the rounds it completes; the own keys of the store, and with
  them the names at which a loop throws, stay as they are.
\<close>

lemma resolveConflict_eq:
  "resolveConflict k cf pc =
     (if inherited_only pc k then (Some TypeError, pc) else (None, resolve_step k cf pc))"
  by (auto simp: resolveConflict_def resolve_step_def get_prop_def inherited_only_def
      split: option.splits)

lemma handleSyncError_eq:
  "handleSyncError k er pc =
     (if fatal (code er) \<and> inherited_only pc k then (Some TypeError, pc)
      else (None, attach_step k er pc))"
  by (auto simp: handleSyncError_def attach_step_def get_prop_def inherited_only_def
      split: option.splits)

lemma keys_resolve_step: "(map_of (resolve_step k' cf pc) k = None) = (map_of pc k = None)"
  by (auto simp: resolve_step_def update_conv' split: option.splits)

lemma keys_attach_step: "(map_of (attach_step k' er pc) k = None) = (map_of pc k = None)"
  by (auto simp: attach_step_def update_conv' split: option.splits)

lemma keys_resolve_fold:
  "(map_of (fold (\<lambda>x. resolve_step (fst x) (snd x)) L pc) k = None) = (map_of pc k = None)"
  by (induction L arbitrary: pc) (simp_all add: keys_resolve_step)

lemma keys_attach_fold:
  "(map_of (fold (\<lambda>x. attach_step (fst x) (snd x)) L pc) k = None) = (map_of pc k = None)"
  by (induction L arbitrary: pc) (simp_all add: keys_attach_step)

lemma resolveConflicts_eq:
  "resolveConflicts cfs pc =
     (if \<exists>x\<in>set (conflict_seq cfs). inherited_only pc (fst x) then Some TypeError else None,
      fold (\<lambda>x. resolve_step (fst x) (snd x))
        (takeWhile (\<lambda>x. \<not> inherited_only pc (fst x)) (conflict_seq cfs)) pc)"
  unfolding resolveConflicts_def for_of_flatten conflict_seq_def [symmetric]
  by (rule for_of_guarded [where bad = "\<lambda>pc x. inherited_only pc (fst x)"])
    (simp_all add: resolveConflict_eq inherited_only_def keys_resolve_step)

lemma handleSyncErrors_eq:
  "handleSyncErrors ers pc =
     (if \<exists>x\<in>set (error_seq ers). fatal (code (snd x)) \<and> inherited_only pc (fst x)
      then Some TypeError else None,
      fold (\<lambda>x. attach_step (fst x) (snd x))
        (takeWhile (\<lambda>x. \<not> (fatal (code (snd x)) \<and> inherited_only pc (fst x))) (error_seq ers)) pc)"
  unfolding handleSyncErrors_def for_of_flatten error_seq_def [symmetric]
  by (rule for_of_guarded
      [where bad = "\<lambda>pc x. fatal (code (snd x)) \<and> inherited_only pc (fst x)"])
    (simp_all add: handleSyncError_eq inherited_only_def keys_attach_step)

lemma resolveConflicts_prefix:
  "\<exists>P. set P \<subseteq> set (conflict_seq cfs) \<and>
       snd (resolveConflicts cfs pc) = fold (\<lambda>x. resolve_step (fst x) (snd x)) P pc"
  using set_takeWhileD [of _ "\<lambda>x. \<not> inherited_only pc (fst x)" "conflict_seq cfs"]
  by (intro exI [of _ "takeWhile (\<lambda>x. \<not> inherited_only pc (fst x)) (conflict_seq cfs)"])
    (auto simp: resolveConflicts_eq)

lemma handleSyncErrors_prefix:
  "\<exists>Q. set Q \<subseteq> set (error_seq ers) \<and>
       snd (handleSyncErrors ers pc) = fold (\<lambda>x. attach_step (fst x) (snd x)) Q pc"
  using set_takeWhileD
    [of _ "\<lambda>x. \<not> (fatal (code (snd x)) \<and> inherited_only pc (fst x))" "error_seq ers"]
  by (intro exI [of _ "takeWhile (\<lambda>x. \<not> (fatal (code (snd x)) \<and> inherited_only pc (fst x)))
        (error_seq ers)"])
    (auto simp: handleSyncErrors_eq)



lemma handleSyncResponse_phases:
  "handleSyncResponse response pc =
     (case resolveConflicts (case conflicts response of None \<Rightarrow> [] | Some cfs \<Rightarrow> cfs) pc of
        (Some e, pc1) \<Rightarrow> (Some e, pc1)
      | (None, pc1) \<Rightarrow>
          handleSyncErrors (case errors response of None \<Rightarrow> [] | Some ers \<Rightarrow> ers) pc1)"
proof -
  have first: "(case conflicts response of
                  None \<Rightarrow> (None, pc)
                | Some cfs \<Rightarrow> if length cfs > 0 then resolveConflicts cfs pc else (None, pc)) =
               resolveConflicts (case conflicts response of None \<Rightarrow> [] | Some cfs \<Rightarrow> cfs) pc"
    by (cases "conflicts response") (auto simp: resolveConflicts_def)
  have second: "(case errors response of
             None \<Rightarrow> (None, p)
           | Some ers \<Rightarrow> if length ers > 0 then handleSyncErrors ers p else (None, p)) =
           handleSyncErrors (case errors response of None \<Rightarrow> [] | Some ers \<Rightarrow> ers) p" for p
    by (cases "errors response") (auto simp: handleSyncErrors_def)
  show ?thesis
    unfolding handleSyncResponse_def first second ..
qed

lemma handleSyncResponse_prefix:
  "\<exists>P Q. set P \<subseteq> set (conflict_seq (case conflicts response of None \<Rightarrow> [] | Some cfs \<Rightarrow> cfs)) \<and>
         set Q \<subseteq> set (error_seq (case errors response of None \<Rightarrow> [] | Some ers \<Rightarrow> ers)) \<and>
         snd (handleSyncResponse response pc) =
           fold (\<lambda>x. attach_step (fst x) (snd x)) Q (fold (\<lambda>x. resolve_step (fst x) (snd x)) P pc)"
proof -
  let ?cfs = "case conflicts response of None \<Rightarrow> [] | Some cfs \<Rightarrow> cfs"
  let ?ers = "case errors response of None \<Rightarrow> [] | Some ers \<Rightarrow> ers"
  obtain P where P: "set P \<subseteq> set (conflict_seq ?cfs)"
    "snd (resolveConflicts ?cfs pc) = fold (\<lambda>x. resolve_step (fst x) (snd x)) P pc"
    using resolveConflicts_prefix by blast
  obtain r pc1 where r: "resolveConflicts ?cfs pc = (r, pc1)" by (cases "resolveConflicts ?cfs pc")
  show ?thesis
  proof (cases r)
    case (Some e)
    with r have "snd (handleSyncResponse response pc) = pc1"
      by (simp add: handleSyncResponse_phases)
    with P r show ?thesis
      by (intro exI [of _ P] exI [of _ "[]"]) simp
  next
    case None
    with r have "handleSyncResponse response pc = handleSyncErrors ?ers pc1"
      by (simp add: handleSyncResponse_phases)
    moreover obtain Q where "set Q \<subseteq> set (error_seq ?ers)"
      "snd (handleSyncErrors ?ers pc1) = fold (\<lambda>x. attach_step (fst x) (snd x)) Q pc1"
      using handleSyncErrors_prefix by blast
    ultimately show ?thesis using P r
      by (intro exI [of _ P] exI [of _ Q]) simp
  qed
qed


lemma keys_handleSyncResponse:
  "(map_of (snd (handleSyncResponse response pc)) k = None) = (map_of pc k = None)"
proof -
  obtain P Q where "snd (handleSyncResponse response pc) =
      fold (\<lambda>x. attach_step (fst x) (snd x)) Q (fold (\<lambda>x. resolve_step (fst x) (snd x)) P pc)"
    using handleSyncResponse_prefix by blast
  then show ?thesis by (simp add: keys_attach_fold keys_resolve_fold)
qed

lemma push_resume_prefix:
  "\<exists>P Q R.
     set P \<subseteq> set (conflict_seq (case conflicts response of None \<Rightarrow> [] | Some cfs \<Rightarrow> cfs)) \<and>
     set Q \<subseteq> set (error_seq (case errors response of None \<Rightarrow> [] | Some ers \<Rightarrow> ers)) \<and>
     set R \<subseteq> set (case syncedIds response of None \<Rightarrow> [] | Some sids \<Rightarrow> sids) \<and>
     pendingChanges (snd (pushChangesToServer_resume (Inr response) s)) =
       fold (mark_step (clock s)) R
         (fold (\<lambda>x. attach_step (fst x) (snd x)) Q
            (fold (\<lambda>x. resolve_step (fst x) (snd x)) P (pendingChanges s)))"
proof -
  let ?sids = "case syncedIds response of None \<Rightarrow> [] | Some sids \<Rightarrow> sids"
  obtain P Q where PQ:
    "set P \<subseteq> set (conflict_seq (case conflicts response of None \<Rightarrow> [] | Some cfs \<Rightarrow> cfs))"
    "set Q \<subseteq> set (error_seq (case errors response of None \<Rightarrow> [] | Some ers \<Rightarrow> ers))"
    "snd (handleSyncResponse response (pendingChanges s)) =
       fold (\<lambda>x. attach_step (fst x) (snd x)) Q
         (fold (\<lambda>x. resolve_step (fst x) (snd x)) P (pendingChanges s))"
    using handleSyncResponse_prefix by blast
  let ?pc1 = "snd (handleSyncResponse response (pendingChanges s))"
  show ?thesis
  proof (cases "fst (handleSyncResponse response (pendingChanges s))")
    case (Some e)
    then have "pendingChanges (snd (pushChangesToServer_resume (Inr response) s)) = ?pc1"
      by (cases "handleSyncResponse response (pendingChanges s)")
        (simp add: pushChangesToServer_resume_def)
    with PQ show ?thesis
      by (intro exI [of _ P] exI [of _ Q] exI [of _ "[]"]) simp
  next
    case None
    obtain R where R: "set R \<subseteq> set ?sids"
      "snd (markChangesSynced ?sids (clock s) ?pc1) = fold (mark_step (clock s)) R ?pc1"
      using markChangesSynced_prefix by blast
    from None have "pendingChanges (snd (pushChangesToServer_resume (Inr response) s)) =
        snd (markChangesSynced ?sids (clock s) ?pc1)"
      by (cases "handleSyncResponse response (pendingChanges s)";
          cases "markChangesSynced ?sids (clock s) ?pc1")
        (auto simp: pushChangesToServer_resume_def savePendingChangesToStorage_def
          split: option.splits)
    with PQ R show ?thesis
      by (intro exI [of _ P] exI [of _ Q] exI [of _ R]) simp
  qed
qed


subsection \<open>The service\<close>



lemma pendingChanges_syncData_begin [simp]:
  "pendingChanges (snd (syncData_begin s)) = pendingChanges s"
  by (simp add: syncData_begin_def)

lemma queueChange_inherited:
  "inherited_only (pendingChanges s) k \<Longrightarrow> queueChange k act d rnd s = (Inl TypeError, s)"
  by (simp add: queueChange_def get_prop_simps Let_def)

lemma get_prop_not_inherited_only:
  "\<not> inherited_only pc k \<Longrightarrow>
   get_prop pc k = (case map_of pc k of None \<Rightarrow> Missing | Some v \<Rightarrow> Own v)"
  by (auto simp: get_prop_def inherited_only_def split: option.splits)

lemma queueChange_queued:
  assumes "\<not> inherited_only (pendingChanges s) k"
  shows "queueChange k act d rnd s =
     (let d1 = (if act = ''create'' \<and> \<not> truthy (id' d)
                then d\<lparr>id' := JStr (''local_'' @ string_of_int (clock s) @ ''_'' @ take 9 rnd)\<rparr>
                else d);
          s1 = savePendingChangesToStorage
                 (s\<lparr>pendingChanges :=
                      AList.update k
                        ((case map_of (pendingChanges s) k of None \<Rightarrow> [] | Some cs \<Rightarrow> cs) @
                         [\<lparr>action = act, data = d1, timestamp = clock s, synced = False,
                           error = None\<rparr>])
                        (pendingChanges s)\<rparr>)
      in (Inr (id' d1), if isOnline s1 then snd (syncData_begin s1) else s1))"
proof (cases "map_of (pendingChanges s) k")
  case None
  with assms show ?thesis
    by (simp add: queueChange_def get_prop_not_inherited_only get_prop_simps update_conv' Let_def)
next
  case (Some cs)
  with assms show ?thesis
    by (simp add: queueChange_def get_prop_not_inherited_only get_prop_simps Let_def)
qed

lemma pendingChanges_queueChange:
  "pendingChanges (snd (queueChange k act d rnd s)) =
     (if inherited_only (pendingChanges s) k then pendingChanges s
      else AList.update k
             ((case map_of (pendingChanges s) k of None \<Rightarrow> [] | Some cs \<Rightarrow> cs) @
              [\<lparr>action = act,
                data = (if act = ''create'' \<and> \<not> truthy (id' d)
                        then d\<lparr>id' := JStr (''local_'' @ string_of_int (clock s) @ ''_'' @ take 9 rnd)\<rparr>
                        else d),
                timestamp = clock s, synced = False, error = None\<rparr>])
             (pendingChanges s))"
proof (cases "inherited_only (pendingChanges s) k")
  case True
  then show ?thesis by (simp add: queueChange_inherited)
next
  case False
  then show ?thesis
    by (simp add: queueChange_queued Let_def savePendingChangesToStorage_def)
qed

lemma inflight_queueChange:
  "inflight (snd (queueChange k act d rnd s)) =
     (if has_token (authToken s) \<and> isOnline s \<and> \<not> inherited_only (pendingChanges s) k
      then inflight s @ [AwaitingPull] else inflight s)"
proof (cases "inherited_only (pendingChanges s) k")
  case True
  then show ?thesis by (simp add: queueChange_inherited)
next
  case False
  then show ?thesis
    by (simp add: queueChange_queued Let_def savePendingChangesToStorage_def syncData_begin_def)
qed

subsection \<open>Entries with an error stay unsynced\<close>

text \<open>Each operation preserves \<open>clear_of F\<close> when it does not target an entry named by \<open>F\<close>.\<close>

lemma clear_of_update:
  "clear_of F pc \<Longrightarrow>
   (\<forall>c\<in>set v. error c \<noteq> None \<longrightarrow> \<not> synced c \<and> (k, id' (data c)) \<notin> F) \<Longrightarrow>
   clear_of F (AList.update k v pc)"
  unfolding clear_of_def using set_AList_update [of k v pc] by fastforce

lemma clear_of_entry:
  "clear_of F pc \<Longrightarrow> map_of pc k = Some cs \<Longrightarrow> c \<in> set cs \<Longrightarrow> error c \<noteq> None \<Longrightarrow>
   \<not> synced c \<and> (k, id' (data c)) \<notin> F"
  unfolding clear_of_def by (fastforce dest: map_of_SomeD)

lemma clear_of_mono: "clear_of F pc \<Longrightarrow> F' \<subseteq> F \<Longrightarrow> clear_of F' pc"
  unfolding clear_of_def by blast

lemma clear_of_append:
  "clear_of F pc \<Longrightarrow> clear_of F pc' \<Longrightarrow> clear_of F (pc @ pc')"
  by (auto simp: clear_of_def)

lemma set_errored_targets:
  "set (errored_targets pc) =
     {(fst e, id' (data c)) | e c. e \<in> set pc \<and> c \<in> set (snd e) \<and> error c \<noteq> None}"
  unfolding errored_targets_def by auto blast

lemma one_outcome_iff:
  "one_outcome pc = (\<forall>e\<in>set pc. \<forall>c\<in>set (snd e). error c \<noteq> None \<longrightarrow> \<not> synced c)"
  unfolding one_outcome_def list_all_iff by simp

lemma clear_of_iff:
  "clear_of F pc = (one_outcome pc \<and> set (errored_targets pc) \<inter> F = {})"
proof
  assume c: "clear_of F pc"
  then have "one_outcome pc" unfolding clear_of_def one_outcome_iff by blast
  moreover have "set (errored_targets pc) \<inter> F = {}"
    using c unfolding clear_of_def set_errored_targets by blast
  ultimately show "one_outcome pc \<and> set (errored_targets pc) \<inter> F = {}" by simp
next
  assume h: "one_outcome pc \<and> set (errored_targets pc) \<inter> F = {}"
  show "clear_of F pc"
    unfolding clear_of_def
  proof (intro ballI impI conjI)
    fix e c assume m: "e \<in> set pc" "c \<in> set (snd e)" "error c \<noteq> None"
    with h show "\<not> synced c" unfolding one_outcome_iff by blast
    from m have "(fst e, id' (data c)) \<in> set (errored_targets pc)"
      unfolding set_errored_targets by blast
    with h show "(fst e, id' (data c)) \<notin> F" by blast
  qed
qed

lemma clear_of_resolve_step:
  assumes "clear_of F pc" and "(k, cid cf) \<in> F"
  shows "clear_of F (resolve_step k cf pc)"
proof (cases "map_of pc k")
  case None
  with assms show ?thesis by (simp add: resolve_step_def)
next
  case (Some cs)
  show ?thesis
  proof (cases "findIndex (\<lambda>c. id' (data c) = cid cf \<and> \<not> synced c) cs")
    case None
    with Some assms show ?thesis by (simp add: resolve_step_def)
  next
    case (Some m)
    note m = findIndex_SomeD [OF Some]
    from m have mem: "cs ! m \<in> set cs" by simp
    have noerr: "error (cs ! m) = None"
    proof (rule ccontr)
      assume "error (cs ! m) \<noteq> None"
      from clear_of_entry [OF assms(1) \<open>map_of pc k = Some cs\<close> mem this] m assms(2)
      show False by simp
    qed
    have "\<forall>c\<in>set (cs[m := (cs ! m)\<lparr>data := serverVersion cf, synced := True\<rparr>]).
            error c \<noteq> None \<longrightarrow> \<not> synced c \<and> (k, id' (data c)) \<notin> F"
    proof
      fix c assume "c \<in> set (cs[m := (cs ! m)\<lparr>data := serverVersion cf, synced := True\<rparr>])"
      then have "c = (cs ! m)\<lparr>data := serverVersion cf, synced := True\<rparr> \<or> c \<in> set cs"
        using set_update_subset_insert [of cs m] by blast
      then show "error c \<noteq> None \<longrightarrow> \<not> synced c \<and> (k, id' (data c)) \<notin> F"
        using noerr clear_of_entry [OF assms(1) \<open>map_of pc k = Some cs\<close>] by auto
    qed
    from clear_of_update [OF assms(1) this] Some \<open>map_of pc k = Some cs\<close>
    show ?thesis by (simp add: resolve_step_def)
  qed
qed

lemma clear_of_attach_step:
  assumes "clear_of F pc" and "fatal (code er) \<longrightarrow> (k, eid er) \<notin> F"
  shows "clear_of F (attach_step k er pc)"
proof (cases "fatal (code er)")
  case False
  with assms show ?thesis by (simp add: attach_step_def)
next
  case True
  show ?thesis
  proof (cases "map_of pc k")
    case None
    with assms show ?thesis by (simp add: attach_step_def)
  next
    case (Some cs)
    show ?thesis
    proof (cases "findIndex (\<lambda>c. id' (data c) = eid er \<and> \<not> synced c) cs")
      case None
      with Some assms show ?thesis by (simp add: attach_step_def)
    next
      case (Some m)
      note m = findIndex_SomeD [OF Some]
      have "\<forall>c\<in>set (cs[m := (cs ! m)\<lparr>error := Some (code er, message er)\<rparr>]).
              error c \<noteq> None \<longrightarrow> \<not> synced c \<and> (k, id' (data c)) \<notin> F"
      proof
        fix c assume "c \<in> set (cs[m := (cs ! m)\<lparr>error := Some (code er, message er)\<rparr>])"
        then have "c = (cs ! m)\<lparr>error := Some (code er, message er)\<rparr> \<or> c \<in> set cs"
          using set_update_subset_insert [of cs m] by blast
        then show "error c \<noteq> None \<longrightarrow> \<not> synced c \<and> (k, id' (data c)) \<notin> F"
          using m True assms(2) clear_of_entry [OF assms(1) \<open>map_of pc k = Some cs\<close>] by auto
      qed
      from clear_of_update [OF assms(1) this] Some \<open>map_of pc k = Some cs\<close> True
      show ?thesis by (simp add: attach_step_def)
    qed
  qed
qed

lemma clear_of_mark_step:
  assumes "clear_of F pc" and "\<forall>i\<in>set ids. (k, i) \<in> F"
  shows "clear_of F (mark_step now (k, ids) pc)"
proof (cases "map_of pc k")
  case None
  with assms show ?thesis by (simp add: mark_step_def)
next
  case (Some cs)
  have "\<forall>c\<in>set (filter (retained now) (map (mark_synced ids) cs)).
          error c \<noteq> None \<longrightarrow> \<not> synced c \<and> (k, id' (data c)) \<notin> F"
  proof
    fix c assume "c \<in> set (filter (retained now) (map (mark_synced ids) cs))"
    then obtain c0 where c0: "c0 \<in> set cs" "c = mark_synced ids c0" by auto
    show "error c \<noteq> None \<longrightarrow> \<not> synced c \<and> (k, id' (data c)) \<notin> F"
    proof
      assume "error c \<noteq> None"
      with c0 have "error c0 \<noteq> None" by (simp add: mark_synced_simps)
      from clear_of_entry [OF assms(1) Some c0(1) this] assms(2) c0(2)
      show "\<not> synced c \<and> (k, id' (data c)) \<notin> F"
        by (auto simp: mark_synced_simps)
    qed
  qed
  from clear_of_update [OF assms(1) this] Some
  show ?thesis by (simp add: mark_step_def)
qed

lemma clear_of_resolve_fold:
  "clear_of F pc \<Longrightarrow> (\<forall>x\<in>set L. (fst x, cid (snd x)) \<in> F) \<Longrightarrow>
   clear_of F (fold (\<lambda>x. resolve_step (fst x) (snd x)) L pc)"
  by (induction L arbitrary: pc) (simp_all add: clear_of_resolve_step)

lemma clear_of_attach_fold:
  "clear_of F pc \<Longrightarrow> (\<forall>x\<in>set L. fatal (code (snd x)) \<longrightarrow> (fst x, eid (snd x)) \<notin> F) \<Longrightarrow>
   clear_of F (fold (\<lambda>x. attach_step (fst x) (snd x)) L pc)"
  by (induction L arbitrary: pc) (simp_all add: clear_of_attach_step)

lemma clear_of_mark_fold:
  "clear_of F pc \<Longrightarrow> (\<forall>e\<in>set L. \<forall>i\<in>set (snd e). (fst e, i) \<in> F) \<Longrightarrow>
   clear_of F (fold (mark_step now) L pc)"
proof (induction L arbitrary: pc)
  case Nil
  then show ?case by simp
next
  case (Cons e L)
  obtain k ids where e: "e = (k, ids)" by (cases e)
  from Cons.prems have "clear_of F (mark_step now e pc)"
    by (simp add: e clear_of_mark_step)
  from Cons.IH [OF this] Cons.prems(2) show ?case by simp
qed

lemma clear_of_queueChange:
  assumes "clear_of F (pendingChanges s)"
  shows "clear_of F (pendingChanges (snd (queueChange k act d rnd s)))"
proof (cases "inherited_only (pendingChanges s) k")
  case True
  with assms show ?thesis by (simp add: pendingChanges_queueChange)
next
  case False
  have old: "\<forall>c\<in>set (case map_of (pendingChanges s) k of None \<Rightarrow> [] | Some cs \<Rightarrow> cs).
          error c \<noteq> None \<longrightarrow> \<not> synced c \<and> (k, id' (data c)) \<notin> F"
  proof (cases "map_of (pendingChanges s) k")
    case None
    then show ?thesis by simp
  next
    case (Some cs)
    with clear_of_entry [OF assms Some] show ?thesis by simp
  qed
  from False show ?thesis
    unfolding pendingChanges_queueChange
    by (simp add: old clear_of_update [OF assms])
qed

subsection \<open>The entry a conflict resolves\<close>









subsection \<open>Operations that remove nothing\<close>









subsection \<open>The list that the synced-marking leaves\<close>



lemma push_throws_example:
  "pushChangesToServer_resume (Inr ex_resp_inherited) ex_sys_pending =
     (Some TypeError, ex_sys_pending)"
  by (simp add: pushChangesToServer_resume_def handleSyncResponse_def markChangesSynced_def
      markChangesSynced_type_def get_prop_def inherited_def object_prototype_names_def
      ex_resp_inherited_def ex_sys_pending_def ex_sys_def)

lemma conflict_targets_seq:
  "conflict_targets response =
     map (\<lambda>x. (fst x, cid (snd x)))
       (conflict_seq (case conflicts response of None \<Rightarrow> [] | Some cfs \<Rightarrow> cfs))"
  by (simp add: conflict_targets_def conflict_seq_def map_concat comp_def)

lemma fatal_targets_seq:
  "fatal_targets response =
     map (\<lambda>x. (fst x, eid (snd x)))
       (filter (\<lambda>x. fatal (code (snd x)))
          (error_seq (case errors response of None \<Rightarrow> [] | Some ers \<Rightarrow> ers)))"
  by (simp add: fatal_targets_def error_seq_def map_concat filter_concat comp_def filter_map)

section \<open>The claims\<close>

lemmas store_defs =
  getUnsynced_def getUnsynced_step_def unsynced_of_def markChangesSynced_def
  markChangesSynced_type_def mark_synced_def retained_def resolveConflicts_def
  resolveConflict_def handleSyncErrors_def handleSyncError_def fatal_def
  handleSyncResponse_def get_prop_def inherited_def object_prototype_names_def

lemmas sync_defs =
  syncData_def syncData_begin_def syncData_pulled_def syncData_pushed_def syncData_finish_def
  pullChangesFromServer_request_def pullChangesFromServer_resume_def
  pushChangesToServer_request_def pushChangesToServer_resume_def
  updateLastSyncTimestamp_def savePendingChangesToStorage_def applyServerChanges_def
  emitChangeEvents_def retire_def elapse_def has_token_def

lemmas ex_defs =
  ex_entry_def ex_errored_def ex_old_synced_def ex_old_unsynced_def ex_entry_again_def
  ex_server_version_def ex_sys_def ex_sys_pending_def ex_sys_twice_def ex_sys_late_def
  ex_sys_stale_def ex_resp_synced_def ex_resp_error_and_synced_def ex_resp_inherited_def
  ex_resp_conflict_and_synced_def ex_net_def ex_net_down_def

subsection \<open>C1: the checkpoint after a successful cycle\<close>




subsection \<open>C2: a failed pull\<close>

text \<open>
  Claim C2. For every sync cycle in which the pull request fails (the awaited call
  rejects, with a network-level failure or a server error), no push request is issued,
  the Sync Checkpoint is unchanged in the field and in storage, the Pending Changes
  Store is unchanged, and the cycle resolves to \<open>false\<close>: \<open>syncData\<close> catches the
  exception that \<open>pullChangesFromServer\<close> rethrows, so its result is always a boolean.
  The last conjunct says the same of a cycle that resumes in any state \<open>s'\<close>, whatever
  happened while it waited: it ends there, and the state is left as it is.
\<close>

theorem pull_failure_aborts_cycle:
  assumes "pull_outcome net = Inl e"
  shows "fst (syncData net s) = False \<and>
         lastSyncTimestamp (snd (syncData net s)) = lastSyncTimestamp s \<and>
         stored_last_sync (snd (syncData net s)) = stored_last_sync s \<and>
         pendingChanges (snd (syncData net s)) = pendingChanges s \<and>
         stored_changes (snd (syncData net s)) = stored_changes s \<and>
         filter is_push (requests (snd (syncData net s))) = filter is_push (requests s) \<and>
         requests (snd (syncData net s)) =
           (if has_token (authToken s) \<and> isOnline s
            then requests s @ [Get (case lastSyncTimestamp s of None \<Rightarrow> 0 | Some t \<Rightarrow> t)]
            else requests s) \<and>
         inflight (snd (syncData net s)) = inflight s \<and>
         syncData_pulled i (pull_outcome net) s' = (Resolved False, retire i s')"
  using assms
  by (simp add: syncData_def syncData_begin_def syncData_pulled_def
      pullChangesFromServer_resume_def pullChangesFromServer_request_def elapse_def retire_def)

text \<open>Witness: the pull fails with entries waiting to be pushed; only the GET was issued.\<close>

theorem pull_failure_aborts_cycle_witness:
  "pull_outcome ex_net_down = Inl NetworkError \<and>
   getUnsynced (pendingChanges ex_sys_pending) = [(''tasks'', [ex_entry, ex_errored])] \<and>
   fst (syncData ex_net_down ex_sys_pending) = False \<and>
   lastSyncTimestamp (snd (syncData ex_net_down ex_sys_pending)) = Some 1000 \<and>
   requests (snd (syncData ex_net_down ex_sys_pending)) = [Get 1000]"
proof -
  have h: "pull_outcome ex_net_down = Inl NetworkError" by (simp add: ex_defs)
  have u: "getUnsynced (pendingChanges ex_sys_pending) = [(''tasks'', [ex_entry, ex_errored])]"
    by (simp add: ex_defs store_defs)
  from pull_failure_aborts_cycle [OF h, of ex_sys_pending 0 ex_sys_pending]
  have "fst (syncData ex_net_down ex_sys_pending) = False \<and>
        lastSyncTimestamp (snd (syncData ex_net_down ex_sys_pending)) = Some 1000 \<and>
        requests (snd (syncData ex_net_down ex_sys_pending)) = [Get 1000]"
    by (simp add: ex_defs has_token_def)
  with h u show ?thesis by simp
qed

subsection \<open>C3: at most one outcome per entry\<close>

text \<open>
  Claim C3, as amended. If no entry of the Pending Changes Store carries an error and is
  synced as well, then this still holds after an enqueue and after error attachment,
  and it still holds after a push response has been processed provided that the
  response names no entry that carries an error in its \<open>conflicts\<close> or \<open>syncedIds\<close>
  for that entry's type, and names no id that it reports with a fatal error code in
  its \<open>syncedIds\<close> for the same type. (\<open>markChangesSynced\<close> and \<open>resolveConflicts\<close> do
  not look at the error of the entry they mark.) All of this holds also where a call
  throws, of the store that it leaves.
\<close>

theorem one_outcome_preserved:
  assumes "one_outcome (pendingChanges s)"
  shows "one_outcome (pendingChanges (snd (queueChange entityType act d rnd s))) \<and>
         one_outcome (snd (handleSyncErrors ers (pendingChanges s))) \<and>
         (set (errored_targets (pendingChanges s)) \<inter>
            (set (conflict_targets response) \<union> set (synced_targets response)) = {} \<and>
          set (fatal_targets response) \<inter> set (synced_targets response) = {} \<longrightarrow>
          one_outcome (pendingChanges (snd (pushChangesToServer_resume (Inr response) s))))"
proof (intro conjI impI)
  from assms have c0: "clear_of {} (pendingChanges s)" by (simp add: clear_of_iff)
  from clear_of_queueChange [OF c0]
  show "one_outcome (pendingChanges (snd (queueChange entityType act d rnd s)))"
    by (simp add: clear_of_iff)
  obtain Q where "snd (handleSyncErrors ers (pendingChanges s)) =
      fold (\<lambda>x. attach_step (fst x) (snd x)) Q (pendingChanges s)"
    using handleSyncErrors_prefix by blast
  with clear_of_attach_fold [OF c0, of Q]
  show "one_outcome (snd (handleSyncErrors ers (pendingChanges s)))"
    by (simp add: clear_of_iff)
next
  let ?Fc = "set (conflict_targets response)" and ?Fs = "set (synced_targets response)"
  let ?pc = "pendingChanges s"
  assume h: "set (errored_targets ?pc) \<inter> (?Fc \<union> ?Fs) = {} \<and>
             set (fatal_targets response) \<inter> ?Fs = {}"
  with assms have c: "clear_of (?Fc \<union> ?Fs) ?pc" by (simp add: clear_of_iff)
  obtain P Q R where
    P: "set P \<subseteq> set (conflict_seq (case conflicts response of None \<Rightarrow> [] | Some cfs \<Rightarrow> cfs))"
    and Q: "set Q \<subseteq> set (error_seq (case errors response of None \<Rightarrow> [] | Some ers \<Rightarrow> ers))"
    and R: "set R \<subseteq> set (case syncedIds response of None \<Rightarrow> [] | Some sids \<Rightarrow> sids)"
    and final: "pendingChanges (snd (pushChangesToServer_resume (Inr response) s)) =
       fold (mark_step (clock s)) R
         (fold (\<lambda>x. attach_step (fst x) (snd x)) Q
            (fold (\<lambda>x. resolve_step (fst x) (snd x)) P ?pc))"
    using push_resume_prefix by blast
  have "\<forall>x\<in>set P. (fst x, cid (snd x)) \<in> ?Fc \<union> ?Fs"
    using P by (auto simp: conflict_targets_seq)
  from clear_of_resolve_fold [OF c this]
  have "clear_of ?Fs (fold (\<lambda>x. resolve_step (fst x) (snd x)) P ?pc)"
    by (rule clear_of_mono) simp
  moreover have "\<forall>x\<in>set Q. fatal (code (snd x)) \<longrightarrow> (fst x, eid (snd x)) \<notin> ?Fs"
  proof (intro ballI impI)
    fix x assume "x \<in> set Q" "fatal (code (snd x))"
    with Q have "(fst x, eid (snd x)) \<in> set (fatal_targets response)"
      by (auto simp: fatal_targets_seq)
    with h show "(fst x, eid (snd x)) \<notin> ?Fs" by blast
  qed
  ultimately have c2: "clear_of ?Fs
      (fold (\<lambda>x. attach_step (fst x) (snd x)) Q
         (fold (\<lambda>x. resolve_step (fst x) (snd x)) P ?pc))"
    by (rule clear_of_attach_fold)
  have "\<forall>e\<in>set R. \<forall>i\<in>set (snd e). (fst e, i) \<in> ?Fs"
    using R by (cases "syncedIds response") (force simp: synced_targets_def)+
  from clear_of_mark_fold [OF c2 this, of "clock s"] final
  have "clear_of {} (pendingChanges (snd (pushChangesToServer_resume (Inr response) s)))"
    by (auto intro: clear_of_mono)
  then show "one_outcome (pendingChanges (snd (pushChangesToServer_resume (Inr response) s)))"
    by (simp add: clear_of_iff)
qed

text \<open>
  Witness: the store holds the unsynced entry \<open>A\<close> and the errored entry \<open>E\<close>; the
  response accepts \<open>A\<close> only.
\<close>

theorem one_outcome_preserved_witness:
  "one_outcome (pendingChanges ex_sys_pending) \<and>
   set (errored_targets (pendingChanges ex_sys_pending)) \<inter>
     (set (conflict_targets ex_resp_synced) \<union> set (synced_targets ex_resp_synced)) = {} \<and>
   set (fatal_targets ex_resp_synced) \<inter> set (synced_targets ex_resp_synced) = {} \<and>
   one_outcome (pendingChanges (snd (pushChangesToServer_resume (Inr ex_resp_synced) ex_sys_pending))) \<and>
   one_outcome (pendingChanges (snd (queueChange ''tasks'' ''create'' ex_server_version ''k3j2h1g9x'' ex_sys_pending)))"
proof -
  have h1: "one_outcome (pendingChanges ex_sys_pending)"
    by (simp add: ex_defs one_outcome_def)
  have h2: "set (errored_targets (pendingChanges ex_sys_pending)) \<inter>
     (set (conflict_targets ex_resp_synced) \<union> set (synced_targets ex_resp_synced)) = {}"
    by (simp add: ex_defs errored_targets_def conflict_targets_def synced_targets_def)
  have h3: "set (fatal_targets ex_resp_synced) \<inter> set (synced_targets ex_resp_synced) = {}"
    by (simp add: ex_defs fatal_targets_def synced_targets_def)
  from one_outcome_preserved [OF h1, of "''tasks''" "''create''" ex_server_version
      "''k3j2h1g9x''" "[]" ex_resp_synced] h1 h2 h3
  show ?thesis by simp
qed

text \<open>
  Counterexample to C3 as stated: the response reports \<open>A\<close> with the fatal code
  \<open>INVALID_DATA\<close> and lists \<open>A\<close> in \<open>syncedIds\<close> too. The error is attached first, the
  synced-marking follows, and the entry ends with both.
\<close>

theorem error_and_synced_together:
  "one_outcome (pendingChanges ex_sys_pending) \<and>
   pendingChanges (snd (pushChangesToServer_resume (Inr ex_resp_error_and_synced) ex_sys_pending)) =
     [(''tasks'', [ex_entry\<lparr>synced := True, error := Some (''INVALID_DATA'', ''bad'')\<rparr>, ex_errored])] \<and>
   \<not> one_outcome
       (pendingChanges (snd (pushChangesToServer_resume (Inr ex_resp_error_and_synced) ex_sys_pending)))"
  by (simp add: ex_defs sync_defs store_defs one_outcome_def Let_def)

subsection \<open>C4: retention\<close>




subsection \<open>C5: a conflict and a synced-marking for the same id\<close>




subsection \<open>C6: overlapping cycles\<close>

text \<open>
  Claim C6, as amended. The service keeps no record of a cycle in progress, so cycles
  can overlap. A tick of the armed timer starts a new cycle, and issues its pull
  request, whenever the service is online and has a token, whatever cycles are in
  flight; so does every enqueue that queues its entry (an enqueue throws, and starts
  nothing, only for an entity type that the store has from \<open>Object.prototype\<close> only).
  A tick is dropped, not queued, only when the service is offline or has no token.
\<close>

theorem cycles_start_regardless:
  assumes "syncInterval s \<noteq> None"
  shows "step Tick s =
           (if has_token (authToken s) \<and> isOnline s
            then s\<lparr>requests := requests s @ [pullChangesFromServer_request s],
                   inflight := inflight s @ [AwaitingPull]\<rparr>
            else s) \<and>
         inflight (step (Enqueue entityType act d rnd) s) =
           (if has_token (authToken s) \<and> isOnline s \<and>
               \<not> inherited_only (pendingChanges s) entityType
            then inflight s @ [AwaitingPull]
            else inflight s)"
  using assms by (auto simp: syncData_begin_def inflight_queueChange)

text \<open>
  Witness: a tick, and an enqueue for \<open>tasks\<close>, while the cycle of an earlier tick is
  waiting for its pull.
\<close>

theorem cycles_start_regardless_witness:
  "syncInterval (step Tick ex_sys) \<noteq> None \<and>
   inflight (step Tick ex_sys) = [AwaitingPull] \<and>
   inflight (step Tick (step Tick ex_sys)) = [AwaitingPull, AwaitingPull] \<and>
   inflight (step (Enqueue ''tasks'' ''update'' ex_server_version ''x'') (step Tick ex_sys)) =
     [AwaitingPull, AwaitingPull]"
proof -
  have h: "syncInterval (step Tick ex_sys) \<noteq> None"
    by (simp add: ex_defs sync_defs)
  have i: "inflight (step Tick ex_sys) = [AwaitingPull]"
    by (simp add: ex_defs sync_defs)
  from cycles_start_regardless [OF h, of "''tasks''" "''update''" ex_server_version "''x''"]
  have "inflight (step Tick (step Tick ex_sys)) = [AwaitingPull, AwaitingPull] \<and>
        inflight (step (Enqueue ''tasks'' ''update'' ex_server_version ''x'') (step Tick ex_sys)) =
          [AwaitingPull, AwaitingPull]"
    by (simp add: ex_defs sync_defs queueChange_def get_prop_def inherited_def
        object_prototype_names_def Let_def)
  with h i show ?thesis by simp
qed

text \<open>
  Counterexample to C6 as stated: two ticks in a row, the second while the cycle of the
  first is still waiting for its pull response. Both cycles are in flight and both pull
  requests have been issued.
\<close>

theorem second_tick_not_suppressed:
  "inflight (run [Tick] ex_sys) = [AwaitingPull] \<and>
   inflight (run [Tick, Tick] ex_sys) = [AwaitingPull, AwaitingPull] \<and>
   requests (run [Tick, Tick] ex_sys) = [Get 1000, Get 1000]"
  by (simp add: run_def ex_defs sync_defs)

subsection \<open>C7: getUnsynced\<close>

text \<open>
  Claim C7. For every state of the Pending Changes Store (an object, so its keys are
  distinct), \<open>getUnsynced\<close> returns under each entity type exactly the entries of that
  type with \<open>synced = false\<close>, in their order; an entity type whose entries are all
  synced, or that has no entries, is absent from the result; and the result is empty
  exactly when the store holds no unsynced entry.
\<close>

theorem getUnsynced_exact:
  assumes "distinct (map fst pc)"
  shows "map_of (getUnsynced pc) entityType =
           (case map_of pc entityType of
              None \<Rightarrow> None
            | Some changes \<Rightarrow>
                if (\<forall>c\<in>set changes. synced c) then None
                else Some (filter (\<lambda>c. \<not> synced c) changes))
         \<and> ((getUnsynced pc = []) = (\<forall>e\<in>set pc. \<forall>c\<in>set (snd e). synced c))"
  using getUnsynced_fold_map_of [OF assms, of "[]" entityType]
  by (auto simp: getUnsynced_def getUnsynced_fold_Nil unsynced_of_Nil split: option.splits)
    (auto simp: unsynced_of_def)

text \<open>
  Witness: \<open>tasks\<close> holds an unsynced and a synced entry, \<open>activities\<close> only a synced
  one.
\<close>

theorem getUnsynced_exact_witness:
  "distinct (map fst [(''tasks'', [ex_entry, ex_old_synced]), (''activities'', [ex_old_synced])]) \<and>
   map_of (getUnsynced [(''tasks'', [ex_entry, ex_old_synced]), (''activities'', [ex_old_synced])])
     ''tasks'' = Some [ex_entry] \<and>
   map_of (getUnsynced [(''tasks'', [ex_entry, ex_old_synced]), (''activities'', [ex_old_synced])])
     ''activities'' = None"
proof -
  let ?pc = "[(''tasks'', [ex_entry, ex_old_synced]), (''activities'', [ex_old_synced])]"
  have h: "distinct (map fst ?pc)" by simp
  from getUnsynced_exact [OF h, of "''tasks''"]
  have a: "map_of (getUnsynced ?pc) ''tasks'' = Some [ex_entry]"
    by (simp add: ex_entry_def ex_old_synced_def)
  from getUnsynced_exact [OF h, of "''activities''"]
  have b: "map_of (getUnsynced ?pc) ''activities'' = None"
    by (simp add: ex_old_synced_def)
  from h a b show ?thesis by simp
qed

subsection \<open>C8: markSynced is idempotent\<close>

text \<open>
  Claim C8. For every store, every mapping of synced ids and every evaluation time,
  applying \<open>markChangesSynced\<close> a second time with the same ids at the same time
  leaves the store as the first application left it (and throws if and only if the
  first application threw).
\<close>

theorem markChangesSynced_idempotent:
  "markChangesSynced ids now (snd (markChangesSynced ids now pc)) = markChangesSynced ids now pc"
proof -
  let ?P = "takeWhile (\<lambda>e. \<not> inherited_only pc (fst e)) ids"
  let ?M = "fold (mark_step now) ?P pc"
  have same: "inherited_only ?M k = inherited_only pc k" for k
    by (simp add: inherited_only_def keys_mark_fold)
  have "fold (mark_step now) ?P ?M = ?M"
    by (rule fold_fixed) (simp add: settled_at_fixed settled_at_fold_mem)
  then show ?thesis
    by (simp add: markChangesSynced_eq same)
qed

text \<open>Witness: marking \<open>A\<close> synced twice, with a swept entry beside it.\<close>

theorem markChangesSynced_idempotent_witness:
  "markChangesSynced [(''tasks'', [JStr ''A''])] 3601000 [(''tasks'', [ex_entry, ex_old_synced])] =
     (None, [(''tasks'', [ex_entry\<lparr>synced := True\<rparr>])]) \<and>
   markChangesSynced [(''tasks'', [JStr ''A''])] 3601000 [(''tasks'', [ex_entry\<lparr>synced := True\<rparr>])] =
     (None, [(''tasks'', [ex_entry\<lparr>synced := True\<rparr>])])"
proof -
  have a: "markChangesSynced [(''tasks'', [JStr ''A''])] 3601000
             [(''tasks'', [ex_entry, ex_old_synced])] =
           (None, [(''tasks'', [ex_entry\<lparr>synced := True\<rparr>])])"
    by (simp add: store_defs ex_entry_def ex_old_synced_def)
  from markChangesSynced_idempotent [of "[(''tasks'', [JStr ''A''])]" 3601000
      "[(''tasks'', [ex_entry, ex_old_synced])]"] a
  show ?thesis by simp
qed

subsection \<open>C9: queueChange without a generated id\<close>

text \<open>
  Claim C9, as amended. For every call of \<open>queueChange\<close> whose action is not \<open>create\<close>,
  or whose \<open>data.id\<close> is truthy (an id of \<open>0\<close>, of the empty string, \<open>false\<close> or \<open>null\<close>
  is taken for missing, as \<open>!data.id\<close> takes it), no local id is generated. If the
  entity type is one that the store has from \<open>Object.prototype\<close> only, the call throws
  a \<open>TypeError\<close>: nothing is queued and the service is left as it was. Otherwise
  exactly one entry is appended to the list of the entity type, with the supplied data
  unchanged and \<open>synced = false\<close>, the lists of the other entity types stay as they are,
  and the call returns the supplied \<open>data.id\<close> (\<open>undefined\<close> when there is none).
\<close>

theorem queueChange_supplied_id:
  assumes "act \<noteq> ''create'' \<or> truthy (id' d)"
  shows "(inherited_only (pendingChanges s) entityType \<longrightarrow>
            queueChange entityType act d rnd s = (Inl TypeError, s)) \<and>
         (\<not> inherited_only (pendingChanges s) entityType \<longrightarrow>
            fst (queueChange entityType act d rnd s) = Inr (id' d) \<and>
            map_of (pendingChanges (snd (queueChange entityType act d rnd s))) entityType =
              Some ((case map_of (pendingChanges s) entityType of
                       None \<Rightarrow> [] | Some changes \<Rightarrow> changes) @
                    [\<lparr>action = act, data = d, timestamp = clock s, synced = False,
                      error = None\<rparr>]) \<and>
            (\<forall>t. t \<noteq> entityType \<longrightarrow>
               map_of (pendingChanges (snd (queueChange entityType act d rnd s))) t =
               map_of (pendingChanges s) t))"
proof (intro conjI impI allI)
  assume "inherited_only (pendingChanges s) entityType"
  then show "queueChange entityType act d rnd s = (Inl TypeError, s)"
    by (rule queueChange_inherited)
next
  assume n: "\<not> inherited_only (pendingChanges s) entityType"
  from n assms show "fst (queueChange entityType act d rnd s) = Inr (id' d)"
    by (auto simp: queueChange_queued Let_def)
  from n assms show
    "map_of (pendingChanges (snd (queueChange entityType act d rnd s))) entityType =
       Some ((case map_of (pendingChanges s) entityType of
                None \<Rightarrow> [] | Some changes \<Rightarrow> changes) @
             [\<lparr>action = act, data = d, timestamp = clock s, synced = False, error = None\<rparr>])"
    by (auto simp: pendingChanges_queueChange update_conv')
  fix t assume "t \<noteq> entityType"
  with n show "map_of (pendingChanges (snd (queueChange entityType act d rnd s))) t =
               map_of (pendingChanges s) t"
    by (simp add: pendingChanges_queueChange update_conv')
qed

text \<open>
  Witness: an update without an id returns \<open>undefined\<close> and appends the entry; the same
  call for the entity type \<open>toString\<close> throws.
\<close>

theorem queueChange_supplied_id_witness:
  "\<not> inherited_only (pendingChanges ex_sys) ''tasks'' \<and>
   inherited_only (pendingChanges ex_sys) ''toString'' \<and>
   fst (queueChange ''tasks'' ''update'' \<lparr>id' = Undefined, props = []\<rparr> ''k3j2h1g9x'' ex_sys) =
     Inr Undefined \<and>
   map_of (pendingChanges
        (snd (queueChange ''tasks'' ''update'' \<lparr>id' = Undefined, props = []\<rparr> ''k3j2h1g9x'' ex_sys)))
      ''tasks'' =
     Some [\<lparr>action = ''update'', data = \<lparr>id' = Undefined, props = []\<rparr>, timestamp = 5000,
            synced = False, error = None\<rparr>] \<and>
   queueChange ''toString'' ''update'' \<lparr>id' = Undefined, props = []\<rparr> ''k3j2h1g9x'' ex_sys =
     (Inl TypeError, ex_sys)"
proof -
  have h: "''update'' \<noteq> ''create'' \<or> truthy (id' \<lparr>id' = Undefined, props = []\<rparr>)" by simp
  have n: "\<not> inherited_only (pendingChanges ex_sys) ''tasks''"
    by (simp add: inherited_only_def inherited_def object_prototype_names_def)
  have i: "inherited_only (pendingChanges ex_sys) ''toString''"
    by (simp add: inherited_only_def inherited_def object_prototype_names_def ex_sys_def)
  from queueChange_supplied_id [OF h, of ex_sys "''tasks''" "''k3j2h1g9x''"] n
  have a: "fst (queueChange ''tasks'' ''update'' \<lparr>id' = Undefined, props = []\<rparr> ''k3j2h1g9x'' ex_sys) =
     Inr Undefined \<and>
   map_of (pendingChanges
        (snd (queueChange ''tasks'' ''update'' \<lparr>id' = Undefined, props = []\<rparr> ''k3j2h1g9x'' ex_sys)))
      ''tasks'' =
     Some [\<lparr>action = ''update'', data = \<lparr>id' = Undefined, props = []\<rparr>, timestamp = 5000,
            synced = False, error = None\<rparr>]"
    by (simp add: ex_sys_def)
  from queueChange_supplied_id [OF h, of ex_sys "''toString''" "''k3j2h1g9x''"] i
  have b: "queueChange ''toString'' ''update'' \<lparr>id' = Undefined, props = []\<rparr> ''k3j2h1g9x'' ex_sys =
     (Inl TypeError, ex_sys)"
    by simp
  from n i a b show ?thesis by simp
qed

text \<open>
  Counterexample to C9 as stated, in two parts. First: a \<open>create\<close> whose data carries
  the id \<open>0\<close>; the id is replaced by a local id, which is what the call returns and what
  the queued entry holds. Second: an update with a supplied id for the entity type
  \<open>constructor\<close>; the call throws and the store stays empty.
\<close>

theorem supplied_id_replaced:
  "id' \<lparr>id' = JNum 0, props = []\<rparr> = JNum 0 \<and>
   fst (queueChange ''tasks'' ''create'' \<lparr>id' = JNum 0, props = []\<rparr> ''k3j2h1g9x'' ex_sys) =
     Inr (JStr ''local_5000_k3j2h1g9x'') \<and>
   pendingChanges (snd (queueChange ''tasks'' ''create'' \<lparr>id' = JNum 0, props = []\<rparr> ''k3j2h1g9x''
        ex_sys)) =
     [(''tasks'', [\<lparr>action = ''create'',
                    data = \<lparr>id' = JStr ''local_5000_k3j2h1g9x'', props = []\<rparr>,
                    timestamp = 5000, synced = False, error = None\<rparr>])] \<and>
   truthy (id' ex_server_version) \<and>
   queueChange ''constructor'' ''update'' ex_server_version ''k3j2h1g9x'' ex_sys =
     (Inl TypeError, ex_sys)"
proof -
  have s: "string_of_int 5000 = ''5000''"
    by code_simp
  show ?thesis
    by (simp add: queueChange_def get_prop_def inherited_def object_prototype_names_def
        savePendingChangesToStorage_def syncData_begin_def Let_def s ex_sys_def
        ex_server_version_def)
qed

subsection \<open>C10: errors that are not fatal\<close>

text \<open>
  Claim C10. For every error the server reports for an entry with a code that is
  neither \<open>INVALID_DATA\<close> nor \<open>PERMISSION_DENIED\<close>, processing the error leaves the
  Pending Changes Store as it was: no error is attached to any entry and the entry
  stays unsynced. The store is not read, and nothing is thrown.
\<close>

theorem nonfatal_error_ignored:
  assumes "code er \<noteq> ''INVALID_DATA''" and "code er \<noteq> ''PERMISSION_DENIED''"
  shows "handleSyncError entityType er pc = (None, pc) \<and>
         handleSyncErrors [(entityType, [er])] pc = (None, pc)"
  using assms by (simp add: handleSyncError_def handleSyncErrors_def fatal_def)

text \<open>Witness: the server reports \<open>RATE_LIMITED\<close> for the entry \<open>A\<close>.\<close>

theorem nonfatal_error_ignored_witness:
  "handleSyncErrors
     [(''tasks'', [\<lparr>eid = JStr ''A'', code = ''RATE_LIMITED'', message = ''slow down''\<rparr>])]
     [(''tasks'', [ex_entry])] = (None, [(''tasks'', [ex_entry])])"
proof -
  have h1: "code \<lparr>eid = JStr ''A'', code = ''RATE_LIMITED'', message = ''slow down''\<rparr> \<noteq> ''INVALID_DATA''"
    and h2: "code \<lparr>eid = JStr ''A'', code = ''RATE_LIMITED'', message = ''slow down''\<rparr> \<noteq> ''PERMISSION_DENIED''"
    by simp_all
  from nonfatal_error_ignored [OF h1 h2, of "''tasks''" "[(''tasks'', [ex_entry])]"]
  show ?thesis by simp
qed

end
